theory Spec2Isabelle
  imports Complex_Main "HOL-Library.Sublist" "HOL-Library.Log_Nat"
begin

section \<open>JavaScript values\<close>

text \<open>
  The program of \<^verbatim>\<open>earnings/fetchEarningsFromFinnhub.mjs\<close> handles two kinds of data: what
  \<^verbatim>\<open>JSON.parse\<close> and the HTTP client give it (the state file, the upstream answer) and the
  records it builds itself. Both are JavaScript values. Numbers are the finite doubles, kept as
  the exact rational they denote (JSON has no NaN); objects are association lists read with
  \<^const>\<open>map_of\<close>. \<open>JUndefined\<close> is what reading an absent property gives; an object
  literal such as \<^verbatim>\<open>{ symbol: item.symbol }\<close> may also hold it as a property value.
\<close>

datatype jsval =
    JUndefined
  | JNull
  | JBool bool
  | JNum rat
  | JStr string
  | JArr "jsval list"
  | JObj "(string \<times> jsval) list"

datatype js_error =
    TypeError | SyntaxError | FsError | FetchError | ValidationError | DeliveryError

text \<open>
  \<^verbatim>\<open>v.k\<close> for the property names the program reads (\<^verbatim>\<open>symbol\<close>, \<^verbatim>\<open>date\<close>,
  \<^verbatim>\<open>epsActual\<close>, \<^verbatim>\<open>revenueActual\<close>, \<^verbatim>\<open>earningsCalendar\<close>, ...): a TypeError on
  \<^verbatim>\<open>null\<close> and \<^verbatim>\<open>undefined\<close>, the own property of an object, and \<^verbatim>\<open>undefined\<close>
  on every other value, none of whose prototypes defines these names.
\<close>

fun getProp :: "jsval \<Rightarrow> string \<Rightarrow> js_error + jsval" where
  "getProp JUndefined k = Inl TypeError"
| "getProp JNull k = Inl TypeError"
| "getProp (JObj kvs) k = Inr (case map_of kvs k of None \<Rightarrow> JUndefined | Some v \<Rightarrow> v)"
| "getProp v k = Inr JUndefined"

text \<open>
  \<^verbatim>\<open>a === b\<close>. Arrays and objects compare by reference; the two operands the program
  compares never are the same reference (one belongs to a record of the state, the other to
  an upstream item met for the first time), so the comparison is false for them.
\<close>

fun strictEq :: "jsval \<Rightarrow> jsval \<Rightarrow> bool" where
  "strictEq JUndefined JUndefined = True"
| "strictEq JNull JNull = True"
| "strictEq (JBool a) (JBool b) = (a = b)"
| "strictEq (JNum a) (JNum b) = (a = b)"
| "strictEq (JStr a) (JStr b) = (a = b)"
| "strictEq a b = False"

text \<open>Truthiness, for \<^verbatim>\<open>data.earningsCalendar || []\<close>.\<close>

fun truthy :: "jsval \<Rightarrow> bool" where
  "truthy JUndefined = False"
| "truthy JNull = False"
| "truthy (JBool b) = b"
| "truthy (JNum r) = (r \<noteq> 0)"
| "truthy (JStr s) = (s \<noteq> [])"
| "truthy v = True"

text \<open>
  Reading a property of a value already known not to be \<^verbatim>\<open>null\<close> or \<^verbatim>\<open>undefined\<close>
  (the item of the loop body after line 57 has run).
\<close>

definition fieldOf :: "jsval \<Rightarrow> string \<Rightarrow> jsval" where
  "fieldOf v k = (case getProp v k of Inl e \<Rightarrow> JUndefined | Inr x \<Rightarrow> x)"

section \<open>The state store\<close>

text \<open>
  The state file as \<^verbatim>\<open>loadState\<close> meets it: absent, unreadable, holding text that
  \<^verbatim>\<open>JSON.parse\<close> rejects, or holding text that \<^verbatim>\<open>JSON.parse\<close> accepts, given by the
  value parsed.
\<close>

datatype file_content = NoFile | Unreadable | NotJson | Json jsval

text \<open>\<^verbatim>\<open>JSON.parse(await fs.readFile(STATE_FILE, "utf-8"))\<close>\<close>

fun readParse :: "file_content \<Rightarrow> js_error + jsval" where
  "readParse NoFile = Inl FsError"
| "readParse Unreadable = Inl FsError"
| "readParse NotJson = Inl SyntaxError"
| "readParse (Json v) = Inr v"

definition loadState :: "file_content \<Rightarrow> jsval" where
  "loadState f = (case readParse f of Inl e \<Rightarrow> JArr [] | Inr v \<Rightarrow> v)"

text \<open>
  What \<^verbatim>\<open>JSON.parse\<close> reads back from the text \<^verbatim>\<open>JSON.stringify(v, null, 2)\<close>:
  a property whose value is \<^verbatim>\<open>undefined\<close> is left out of an object, and an
  \<^verbatim>\<open>undefined\<close> element of an array is written \<^verbatim>\<open>null\<close>.
\<close>

fun reparse :: "jsval \<Rightarrow> jsval" where
  "reparse (JArr xs) = JArr (map (\<lambda>x. if x = JUndefined then JNull else reparse x) xs)"
| "reparse (JObj kvs) =
     JObj (map (\<lambda>kv. (fst kv, reparse (snd kv))) (filter (\<lambda>kv. snd kv \<noteq> JUndefined) kvs))"
| "reparse v = v"

section \<open>The loop of \<^verbatim>\<open>main\<close>\<close>

text \<open>Lines 56-57: \<^verbatim>\<open>item.epsActual !== null || item.revenueActual !== null\<close>.\<close>

definition isReported :: "jsval \<Rightarrow> js_error + bool" where
  "isReported item =
     (case getProp item ''epsActual'' of
        Inl e \<Rightarrow> Inl e
      | Inr ea \<Rightarrow>
          if \<not> strictEq ea JNull then Inr True
          else (case getProp item ''revenueActual'' of
                  Inl e \<Rightarrow> Inl e
                | Inr ra \<Rightarrow> Inr (\<not> strictEq ra JNull)))"

text \<open>
  Line 61, the callback of \<^verbatim>\<open>state.some\<close>:
  \<^verbatim>\<open>(e) => e.symbol === item.symbol && e.date === item.date\<close>.
\<close>

definition sameKey :: "jsval \<Rightarrow> jsval \<Rightarrow> js_error + bool" where
  "sameKey item e =
     (case getProp e ''symbol'' of
        Inl x \<Rightarrow> Inl x
      | Inr es \<Rightarrow>
          (case getProp item ''symbol'' of
             Inl x \<Rightarrow> Inl x
           | Inr s \<Rightarrow>
               if strictEq es s then
                 (case getProp e ''date'' of
                    Inl x \<Rightarrow> Inl x
                  | Inr ed \<Rightarrow>
                      (case getProp item ''date'' of
                         Inl x \<Rightarrow> Inl x
                       | Inr d \<Rightarrow> Inr (strictEq ed d)))
               else Inr False))"

text \<open>\<^verbatim>\<open>Array.prototype.some\<close>: left to right, stopping at the first element accepted.\<close>

fun some :: "('a \<Rightarrow> js_error + bool) \<Rightarrow> 'a list \<Rightarrow> js_error + bool" where
  "some f [] = Inr False"
| "some f (e # es) =
     (case f e of
        Inl x \<Rightarrow> Inl x
      | Inr True \<Rightarrow> Inr True
      | Inr False \<Rightarrow> some f es)"

text \<open>
  Lines 60-62. \<^verbatim>\<open>state.some\<close> is a TypeError unless the state is an array: reading the
  property of \<^verbatim>\<open>null\<close> throws, and on any other value \<^verbatim>\<open>some\<close> is not a function.
\<close>

definition exists_in :: "jsval \<Rightarrow> jsval \<Rightarrow> js_error + bool" where
  "exists_in state item =
     (case state of JArr es \<Rightarrow> some (sameKey item) es | _ \<Rightarrow> Inl TypeError)"

text \<open>Line 113: the record \<^verbatim>\<open>{ symbol: item.symbol, date: item.date }\<close> and its push.\<close>

definition notificationRecord :: "jsval \<Rightarrow> jsval" where
  "notificationRecord item = JObj [(''symbol'', fieldOf item ''symbol''), (''date'', fieldOf item ''date'')]"

fun push :: "jsval \<Rightarrow> jsval \<Rightarrow> jsval" where
  "push (JArr es) r = JArr (es @ [r])"
| "push v r = v"

text \<open>
  The \<^verbatim>\<open>for\<close> loop of lines 55-116 over the sorted array. The loop threads the state and
  the list of \<^verbatim>\<open>webhook.send\<close> calls made so far, each with the item whose embed it carried
  and whether it resolved.

  Lines 65-106 build the embed of the item before the send. The values computed there
  (surprise, glyph, labels, \<^verbatim>\<open>toBillions\<close>) never throw, but the \<^verbatim>\<open>EmbedBuilder\<close> of
  discord.js validates what it is given (the length of the title and of each field value, the
  URL) and throws on an embed it rejects. The embed is a function of the item (and of the
  clock, for its timestamp): \<open>build item\<close> tells whether the builder accepts the embed of
  the item. When it does not, the exception leaves the loop before any send is made for the
  item. \<open>ok n\<close> tells whether the \<^verbatim>\<open>webhook.send\<close> call numbered \<open>n\<close> (from 0)
  resolves; when it does not, the exception leaves the loop. So does every TypeError. The
  result holds the error that left the loop, if any.
  (\<^const>\<open>push\<close> is only reached on an array: \<^const>\<open>exists_in\<close> has returned.)
\<close>

type_synonym loop_result = "js_error option \<times> jsval \<times> (jsval \<times> bool) list"

fun forLoop ::
  "(jsval \<Rightarrow> bool) \<Rightarrow> (nat \<Rightarrow> bool) \<Rightarrow> jsval list \<Rightarrow> jsval \<Rightarrow> (jsval \<times> bool) list \<Rightarrow> loop_result"
where
  "forLoop build ok [] state sends = (None, state, sends)"
| "forLoop build ok (item # rest) state sends =
     (case isReported item of
        Inl e \<Rightarrow> (Some e, state, sends)
      | Inr False \<Rightarrow> forLoop build ok rest state sends
      | Inr True \<Rightarrow>
          (case exists_in state item of
             Inl e \<Rightarrow> (Some e, state, sends)
           | Inr True \<Rightarrow> forLoop build ok rest state sends
           | Inr False \<Rightarrow>
               if \<not> build item then (Some ValidationError, state, sends)
               else if ok (length sends)
               then forLoop build ok rest (push state (notificationRecord item)) (sends @ [(item, True)])
               else (Some DeliveryError, state, sends @ [(item, False)])))"

section \<open>Sorting the upstream array\<close>

text \<open>
  Lines 51-53: \<^verbatim>\<open>sort((a, b) => new Date(a.date) - new Date(b.date))\<close>. The time value of
  \<^verbatim>\<open>new Date(v)\<close> is the engine's; it is the parameter \<open>tv\<close>, with \<open>None\<close> for an
  invalid date (NaN). A difference with a NaN operand is NaN, which \<^verbatim>\<open>sort\<close> reads as 0.
\<close>

definition dateDiff :: "(jsval \<Rightarrow> int option) \<Rightarrow> jsval \<Rightarrow> jsval \<Rightarrow> int" where
  "dateDiff tv a b =
     (case tv (fieldOf a ''date'') of
        None \<Rightarrow> 0
      | Some x \<Rightarrow> (case tv (fieldOf b ''date'') of None \<Rightarrow> 0 | Some y \<Rightarrow> x - y))"

text \<open>
  \<^verbatim>\<open>Array.prototype.sort\<close> is stable. With a consistent comparator every conforming engine
  returns the list computed here by insertion; with an inconsistent one (some date invalid)
  ECMAScript leaves the order to the engine, and the model keeps insertion.
\<close>

fun insertBy :: "('a \<Rightarrow> 'a \<Rightarrow> int) \<Rightarrow> 'a \<Rightarrow> 'a list \<Rightarrow> 'a list" where
  "insertBy c x [] = [x]"
| "insertBy c x (y # ys) = (if c x y > 0 then y # insertBy c x ys else x # y # ys)"

definition sortBy :: "('a \<Rightarrow> 'a \<Rightarrow> int) \<Rightarrow> 'a list \<Rightarrow> 'a list" where
  "sortBy c xs = foldr (insertBy c) xs []"

text \<open>
  \<^verbatim>\<open>v.sort(...)\<close> on the value \<open>v\<close>: a TypeError unless \<open>v\<close> is an array. The
  \<^verbatim>\<open>undefined\<close> elements go to the end without being compared; the comparator is called on
  the others as soon as there are two of them, and reading \<^verbatim>\<open>a.date\<close> throws on
  \<^verbatim>\<open>null\<close>.
\<close>

definition sort_earnings :: "(jsval \<Rightarrow> int option) \<Rightarrow> jsval \<Rightarrow> js_error + jsval list" where
  "sort_earnings tv v =
     (case v of
        JArr xs \<Rightarrow>
          (let us = filter (\<lambda>x. x = JUndefined) xs;
               vs = filter (\<lambda>x. x \<noteq> JUndefined) xs
           in if 2 \<le> length vs \<and> JNull \<in> set vs then Inl TypeError
              else Inr (sortBy (dateDiff tv) vs @ us))
      | _ \<Rightarrow> Inl TypeError)"

section \<open>\<^verbatim>\<open>main\<close>\<close>

text \<open>
  What a run meets outside the program: the state file, the answer of \<^verbatim>\<open>axios.get\<close>
  (a failure, or the \<^verbatim>\<open>data\<close> of the response), the embeds the builder accepts, the
  fate of each \<^verbatim>\<open>webhook.send\<close>, and whether \<^verbatim>\<open>fs.writeFile\<close> goes through.
\<close>

datatype fetch = FetchFailed | Response jsval

record world =
  stateFile :: file_content
  upstream :: fetch
  buildOk :: "jsval \<Rightarrow> bool"
  sendOk :: "nat \<Rightarrow> bool"
  writeOk :: bool

text \<open>
  Lines 49-53: the request, \<^verbatim>\<open>data.earningsCalendar || []\<close> and the sort. The result is
  the array \<^verbatim>\<open>earnings\<close> the loop runs over, or the exception thrown on the way.
\<close>

definition fetchEarnings :: "(jsval \<Rightarrow> int option) \<Rightarrow> world \<Rightarrow> js_error + jsval list" where
  "fetchEarnings tv w =
     (case upstream w of
        FetchFailed \<Rightarrow> Inl FetchError
      | Response data \<Rightarrow>
          (case getProp data ''earningsCalendar'' of
             Inl e \<Rightarrow> Inl e
           | Inr ec \<Rightarrow> sort_earnings tv (if truthy ec then ec else JArr [])))"

text \<open>The \<^verbatim>\<open>try\<close> block, lines 49-116.\<close>

definition tryBlock :: "(jsval \<Rightarrow> int option) \<Rightarrow> world \<Rightarrow> jsval \<Rightarrow> loop_result" where
  "tryBlock tv w state =
     (case fetchEarnings tv w of
        Inl e \<Rightarrow> (Some e, state, [])
      | Inr earnings \<Rightarrow> forLoop (buildOk w) (sendOk w) earnings state [])"

text \<open>
  Lines 34-39, \<^verbatim>\<open>saveState\<close>: \<^verbatim>\<open>fs.writeFile(STATE_FILE, JSON.stringify(state, null, 2))\<close>.
  The result is the content of the state file afterwards, given by the value
  \<^verbatim>\<open>JSON.parse\<close> reads from it, or the exception: \<^verbatim>\<open>JSON.stringify(undefined)\<close> is
  \<^verbatim>\<open>undefined\<close>, which \<^verbatim>\<open>fs.writeFile\<close> rejects with a TypeError, and the write itself
  may fail. What a failed write leaves in the file is not known.
\<close>

definition saveState :: "bool \<Rightarrow> jsval \<Rightarrow> js_error + jsval" where
  "saveState canWrite state =
     (if state = JUndefined then Inl TypeError
      else if canWrite then Inr (reparse state)
      else Inl FsError)"

text \<open>
  The script calls \<^verbatim>\<open>main\<close> once, after lines 12-19 have checked that both environment
  variables are set (without them it exits before \<^verbatim>\<open>main\<close> and does nothing): a run is a
  call of \<^verbatim>\<open>main\<close>. The \<^verbatim>\<open>catch\<close> block of line 117 logs whatever the \<^verbatim>\<open>try\<close> block
  threw, and the \<^verbatim>\<open>finally\<close> block of lines 119-123 calls \<^verbatim>\<open>saveState\<close> on the state as
  the \<^verbatim>\<open>try\<close> block left it. An exception of the \<^verbatim>\<open>finally\<close> block itself (of
  \<^verbatim>\<open>saveState\<close>, or of \<^verbatim>\<open>state.length\<close> on \<^verbatim>\<open>null\<close>) leaves \<^verbatim>\<open>main\<close>, and
  the script exits with status 1 (lines 126-130).

  What a run did: the \<^verbatim>\<open>webhook.send\<close> calls in order, the arguments of the
  \<^verbatim>\<open>saveState\<close> calls in order, the error the \<^verbatim>\<open>catch\<close> block logged, the error that
  left \<^verbatim>\<open>main\<close>, and the content of the state file after the run when \<^verbatim>\<open>saveState\<close>
  wrote it.
\<close>

record run =
  sends :: "(jsval \<times> bool) list"
  saveCalls :: "jsval list"
  caught :: "js_error option"
  thrown :: "js_error option"
  written :: "jsval option"

definition main :: "(jsval \<Rightarrow> int option) \<Rightarrow> world \<Rightarrow> run" where
  "main tv w =
     (let state0 = loadState (stateFile w);
          (err, state, calls) = tryBlock tv w state0;
          saved = saveState (writeOk w) state
      in \<lparr> sends = calls,
           saveCalls = [state],
           caught = err,
           thrown = (case saved of
                       Inl e \<Rightarrow> Some e
                     | Inr v \<Rightarrow> if state = JNull then Some TypeError else None),
           written = (case saved of Inl e \<Rightarrow> None | Inr v \<Rightarrow> Some v) \<rparr>)"

section \<open>Notions used to state the properties\<close>

text \<open>The items of the \<^verbatim>\<open>webhook.send\<close> calls that resolved, in order.\<close>

definition delivered :: "(jsval \<times> bool) list \<Rightarrow> jsval list" where
  "delivered calls = map fst (filter snd calls)"

text \<open>
  The program keeps no queue: the delivery queue of a run is the list of the items the loop
  sends, in order, when every send goes through (\<open>build\<close> telling the embeds the builder
  accepts).
\<close>

definition deliveryQueue :: "(jsval \<Rightarrow> bool) \<Rightarrow> jsval list \<Rightarrow> jsval \<Rightarrow> jsval list" where
  "deliveryQueue build earnings state =
     map fst (snd (snd (forLoop build (\<lambda>n. True) earnings state [])))"

text \<open>
  No two elements of the list are records with the same (symbol, date) pair, the pair being
  compared as line 61 compares it.
\<close>

definition distinctKeys :: "jsval list \<Rightarrow> bool" where
  "distinctKeys es = sorted_wrt (\<lambda>a b. sameKey b a \<noteq> Inr True) es"

text \<open>The values \<^verbatim>\<open>JSON.parse\<close> can return: no \<^verbatim>\<open>undefined\<close> anywhere.\<close>

fun jsonValue :: "jsval \<Rightarrow> bool" where
  "jsonValue JUndefined = False"
| "jsonValue (JArr xs) = (\<forall>x \<in> set xs. jsonValue x)"
| "jsonValue (JObj kvs) = (\<forall>kv \<in> set kvs. jsonValue (snd kv))"
| "jsonValue v = True"

text \<open>
  The symbol and the date of the item are absent or primitive values (not arrays or objects,
  which \<^verbatim>\<open>===\<close> compares by reference).
\<close>

fun primitive :: "jsval \<Rightarrow> bool" where
  "primitive (JArr xs) = False"
| "primitive (JObj kvs) = False"
| "primitive v = True"

definition plainKey :: "jsval \<Rightarrow> bool" where
  "plainKey item = (primitive (fieldOf item ''symbol'') \<and> primitive (fieldOf item ''date''))"

text \<open>Not \<^verbatim>\<open>null\<close> and not \<^verbatim>\<open>undefined\<close>: a value whose properties can be read.\<close>

definition readable :: "jsval \<Rightarrow> bool" where
  "readable v = (v \<noteq> JNull \<and> v \<noteq> JUndefined)"

text \<open>At least one of reported EPS and reported revenue of the item is not \<^verbatim>\<open>null\<close>.\<close>

definition hasActual :: "jsval \<Rightarrow> bool" where
  "hasActual item = (fieldOf item ''epsActual'' \<noteq> JNull \<or> fieldOf item ''revenueActual'' \<noteq> JNull)"




section \<open>\<^verbatim>\<open>toBillions\<close>\<close>

text \<open>
  Line 73 divides two doubles and prints the quotient with \<^verbatim>\<open>toFixed(2)\<close>. Both steps are
  exact functions of the rationals the doubles denote: IEEE 754 division returns the double
  nearest to the exact quotient (ties to the even significand), and \<^verbatim>\<open>toFixed\<close> picks the
  integer \<open>n\<close> with \<open>n / 100\<close> nearest to the number (the larger on a tie).
\<close>

text \<open>For \<open>q > 0\<close>, the exponent \<open>e\<close> with \<open>2 ^ e \<le> q < 2 ^ (e + 1)\<close>.\<close>

definition floorLog2 :: "rat \<Rightarrow> int" where
  "floorLog2 q =
     (let (a, b) = quotient_of q;
          k = bitlen a - bitlen b
      in if 2 powi k \<le> q then k else k - 1)"

definition roundHalfEven :: "rat \<Rightarrow> int" where
  "roundHalfEven r =
     (let f = \<lfloor>r\<rfloor>; d = r - of_int f
      in if d < 1 / 2 then f else if 1 / 2 < d then f + 1 else if even f then f else f + 1)"

text \<open>
  Rounding to binary64: 53 significant bits, the unit in the last place never below
  \<open>2 ^ - 1074\<close> (subnormals). Overflow to Infinity is left out: the program only rounds the
  quotient of a double by \<open>10 ^ 9\<close>.
\<close>

definition binary64 :: "rat \<Rightarrow> rat" where
  "binary64 q =
     (if q = 0 then 0
      else let a = \<bar>q\<bar>;
               e = max (floorLog2 a - 52) (- 1074);
               r = of_int (roundHalfEven (a / 2 powi e)) * 2 powi e
           in if q < 0 then - r else r)"

function decimal :: "int \<Rightarrow> string" where
  "decimal n =
     (if n < 10 then [''0123456789'' ! nat n]
      else decimal (n div 10) @ [''0123456789'' ! nat (n mod 10)])"
  by pat_completeness auto
termination
  by (relation "measure nat") auto

declare decimal.simps [simp del]

text \<open>\<^verbatim>\<open>x.toFixed(2)\<close> for a finite \<open>x\<close> of magnitude below \<open>10 ^ 21\<close>.\<close>

definition toFixed2 :: "rat \<Rightarrow> string" where
  "toFixed2 x =
     (let s = (if x < 0 then ''-'' else []);
          n = \<lfloor>\<bar>x\<bar> * 100 + 1 / 2\<rfloor>;
          m = decimal n;
          m = (if length m \<le> 2 then replicate (3 - length m) (CHR ''0'') @ m else m);
          k = length m
      in s @ take (k - 2) m @ ''.'' @ drop (k - 2) m)"

text \<open>
  Lines 72-73. \<^verbatim>\<open>n == null\<close> holds of \<^verbatim>\<open>null\<close> and of \<^verbatim>\<open>undefined\<close>. The result is
  \<open>None\<close> where the embedding stops: an operand that is not a number (JavaScript would
  convert it first), and a quotient of magnitude \<open>10 ^ 21\<close> or more, which \<^verbatim>\<open>toFixed\<close>
  prints in exponent notation.
\<close>

fun toBillions :: "jsval \<Rightarrow> string option" where
  "toBillions JUndefined = Some ''N/A''"
| "toBillions JNull = Some ''N/A''"
| "toBillions (JNum n) =
     (let q = binary64 (n / 1000000000)
      in if \<bar>q\<bar> < 10 ^ 21 then Some (''$'' @ toFixed2 q @ ''B'') else None)"
| "toBillions v = None"

text \<open>
  The number a decimal numeral denotes, to state what \<^verbatim>\<open>toBillions\<close> prints: \<open>digitsVal\<close>
  reads a string of digits, \<open>readFixed2\<close> a numeral with an optional minus sign, at least one
  digit before the point and exactly two after it.
\<close>

definition digitVal :: "char \<Rightarrow> int option" where
  "digitVal c =
     map_of [(CHR ''0'', 0), (CHR ''1'', 1), (CHR ''2'', 2), (CHR ''3'', 3), (CHR ''4'', 4),
             (CHR ''5'', 5), (CHR ''6'', 6), (CHR ''7'', 7), (CHR ''8'', 8), (CHR ''9'', 9)] c"

definition digitsVal :: "string \<Rightarrow> int option" where
  "digitsVal s =
     foldl (\<lambda>acc c. case acc of None \<Rightarrow> None
                     | Some a \<Rightarrow> (case digitVal c of None \<Rightarrow> None | Some d \<Rightarrow> Some (10 * a + d)))
       (Some 0) s"

definition readFixed2 :: "string \<Rightarrow> rat option" where
  "readFixed2 s =
     (let neg = (s \<noteq> [] \<and> hd s = CHR ''-'');
          t = (if neg then tl s else s);
          k = length t
      in if 4 \<le> k \<and> t ! (k - 3) = CHR ''.''
         then (case digitsVal (take (k - 3) t @ drop (k - 2) t) of
                 None \<Rightarrow> None
               | Some c \<Rightarrow> Some ((if neg then - 1 else 1) * of_int c / 100))
         else None)"

section \<open>A time value and events for the examples\<close>

text \<open>
  The theorems below hold for every time value \<open>tv\<close>. Their examples use the one Node
  computes on the dates the upstream source sends, the date-only ISO form
  \<^verbatim>\<open>YYYY-MM-DD\<close>: midnight UTC of that day, in milliseconds since 1970-01-01. It also covers
  \<^verbatim>\<open>undefined\<close> (NaN), \<^verbatim>\<open>null\<close> (0), booleans and numbers. Other strings, arrays and
  objects go through further conversions in the engine; they do not occur in the examples and
  are given \<open>None\<close> here.
\<close>

text \<open>Days from 1970-01-01 to the day \<open>d\<close> of month \<open>m\<close> of year \<open>y\<close> (Gregorian).\<close>

definition daysFromCivil :: "int \<Rightarrow> int \<Rightarrow> int \<Rightarrow> int" where
  "daysFromCivil y m d =
     (let y' = (if m \<le> 2 then y - 1 else y);
          era = y' div 400;
          yoe = y' - era * 400;
          doy = (153 * (if 2 < m then m - 3 else m + 9) + 2) div 5 + d - 1;
          doe = yoe * 365 + yoe div 4 - yoe div 100 + doy
      in era * 146097 + doe - 719468)"

definition isoDate :: "string \<Rightarrow> int option" where
  "isoDate s =
     (if length s = 10 \<and> s ! 4 = CHR ''-'' \<and> s ! 7 = CHR ''-'' then
        (case digitsVal (take 4 s) of
           None \<Rightarrow> None
         | Some y \<Rightarrow>
             (case digitsVal (take 2 (drop 5 s)) of
                None \<Rightarrow> None
              | Some m \<Rightarrow>
                  (case digitsVal (drop 8 s) of
                     None \<Rightarrow> None
                   | Some d \<Rightarrow>
                       if 1 \<le> m \<and> m \<le> 12 \<and> 1 \<le> d \<and> d \<le> 31
                       then Some (daysFromCivil y m d * 86400000) else None)))
      else None)"

fun isoTimeValue :: "jsval \<Rightarrow> int option" where
  "isoTimeValue JUndefined = None"
| "isoTimeValue JNull = Some 0"
| "isoTimeValue (JBool b) = Some (if b then 1 else 0)"
| "isoTimeValue (JNum r) =
     (if \<bar>r\<bar> \<le> 8640000000000000 then Some (if 0 \<le> r then \<lfloor>r\<rfloor> else \<lceil>r\<rceil>) else None)"
| "isoTimeValue (JStr s) = isoDate s"
| "isoTimeValue v = None"

text \<open>An upstream entry with the four fields the loop reads before it sends.\<close>

definition event :: "string \<Rightarrow> string \<Rightarrow> jsval \<Rightarrow> jsval \<Rightarrow> jsval" where
  "event s d eps revenue =
     JObj [(''symbol'', JStr s), (''date'', JStr d), (''epsActual'', eps), (''revenueActual'', revenue)]"

text \<open>The record pushed for an entry with that symbol and that date.\<close>

definition recordOf :: "string \<Rightarrow> string \<Rightarrow> jsval" where
  "recordOf s d = JObj [(''symbol'', JStr s), (''date'', JStr d)]"

text \<open>The response whose \<^verbatim>\<open>earningsCalendar\<close> is the given list.\<close>

definition calendar :: "jsval list \<Rightarrow> fetch" where
  "calendar items = Response (JObj [(''earningsCalendar'', JArr items)])"

text \<open>The builder accepts every embed; it accepts every embed but that of the entry \<open>x\<close>.\<close>

definition acceptsAll :: "jsval \<Rightarrow> bool" where
  "acceptsAll item = True"


text \<open>Every send goes through; every send but the one numbered \<open>k\<close> goes through.\<close>

definition allOk :: "nat \<Rightarrow> bool" where
  "allOk n = True"

definition failsAt :: "nat \<Rightarrow> nat \<Rightarrow> bool" where
  "failsAt k n = (n \<noteq> k)"

text \<open>
  A run for the examples: no state file, five upstream entries out of date order, one of them
  (D) an estimate without reported figures; the third send fails.
\<close>

definition fiveEvents :: "jsval list" where
  "fiveEvents =
     [event ''C'' ''2024-01-03'' (JNum 1) JNull,
      event ''A'' ''2024-01-01'' JNull (JNum 2345000000),
      event ''B'' ''2024-01-02'' (JNum 1) JNull,
      event ''D'' ''2024-01-02'' JNull JNull,
      event ''E'' ''2024-01-04'' (JNum 2) JNull]"

definition thirdSendFails :: world where
  "thirdSendFails =
     \<lparr> stateFile = NoFile, upstream = calendar fiveEvents, buildOk = acceptsAll, sendOk = failsAt 2, writeOk = True \<rparr>"

text \<open>
  The run after \<^const>\<open>thirdSendFails\<close>: the state file holds the records of A and B, the
  upstream answer is the same, and every send goes through.
\<close>

definition afterFailure :: world where
  "afterFailure =
     \<lparr> stateFile = Json (JArr [recordOf ''A'' ''2024-01-01'', recordOf ''B'' ''2024-01-02'']),
       upstream = calendar fiveEvents, buildOk = acceptsAll, sendOk = allOk, writeOk = True \<rparr>"

text \<open>
  A run in which every send goes through, over an upstream answer that lists A twice (the
  second entry with other figures).
\<close>

definition sixEvents :: "jsval list" where
  "sixEvents = fiveEvents @ [event ''A'' ''2024-01-01'' (JNum 3) JNull]"

definition allDelivered :: world where
  "allDelivered =
     \<lparr> stateFile = NoFile, upstream = calendar sixEvents, buildOk = acceptsAll, sendOk = allOk, writeOk = True \<rparr>"










section \<open>The loop, one item at a time\<close>

lemma forLoop_offset:
  "forLoop build ok items st tr =
     (case forLoop build (\<lambda>n. ok (n + length tr)) items st [] of (e, st', new) \<Rightarrow> (e, st', tr @ new))"
proof (induction items arbitrary: st tr ok)
  case Nil
  then show ?case by simp
next
  case (Cons item rest)
  show ?case
  proof (cases "isReported item")
    case (Inl e)
    then show ?thesis by simp
  next
    case (Inr b)
    note rep = this
    show ?thesis
    proof (cases b)
      case False
      with rep Cons.IH [of ok st tr] show ?thesis by simp
    next
      case True
      note b = this
      show ?thesis
      proof (cases "exists_in st item")
        case (Inl e)
        with rep b show ?thesis by simp
      next
        case (Inr c)
        note ex = this
        show ?thesis
        proof (cases c)
          case True
          with rep b ex Cons.IH [of ok st tr] show ?thesis by simp
        next
          case False
          note c = this
          show ?thesis
          proof (cases "build item \<and> ok (length tr)")
            case False
            with rep b ex c show ?thesis by auto
          next
            case True
            let ?st = "push st (notificationRecord item)"
            have 1: "forLoop build ok (item # rest) st tr = forLoop build ok rest ?st (tr @ [(item, True)])"
              using rep b ex c True by simp
            have 2: "forLoop build (\<lambda>n. ok (n + length tr)) (item # rest) st []
                     = forLoop build (\<lambda>n. ok (n + length tr)) rest ?st [(item, True)]"
              using rep b ex c True by simp
            have 3: "(\<lambda>n. ok (n + length (tr @ [(item, True)]))) = (\<lambda>n. ok (n + length tr + 1))"
              by (simp add: add.assoc)
            have 4: "(\<lambda>n. ok (n + length [(item, True)] + length tr)) = (\<lambda>n. ok (n + length tr + 1))"
              by (simp add: add.commute add.left_commute)
            show ?thesis
              unfolding 1 2
              apply (subst Cons.IH [of ok ?st "tr @ [(item, True)]"])
              apply (subst Cons.IH [of "\<lambda>n. ok (n + length tr)" ?st "[(item, True)]"])
              apply (simp only: 3 4)
              apply (simp split: prod.splits)
              done
          qed
        qed
      qed
    qed
  qed
qed

lemma forLoop_send:
  assumes "isReported item = Inr True" and "exists_in st item = Inr False" and "build item" and "ok 0"
  shows "forLoop build ok (item # rest) st [] =
           (case forLoop build (\<lambda>n. ok (Suc n)) rest (push st (notificationRecord item)) [] of
              (e, st', new) \<Rightarrow> (e, st', (item, True) # new))"
proof -
  have "forLoop build ok (item # rest) st [] = forLoop build ok rest (push st (notificationRecord item)) [(item, True)]"
    using assms by simp
  also have "\<dots> = (case forLoop build (\<lambda>n. ok (n + length [(item, True)])) rest (push st (notificationRecord item)) [] of
              (e, st', new) \<Rightarrow> (e, st', [(item, True)] @ new))"
    by (rule forLoop_offset)
  finally show ?thesis by simp
qed

lemma forLoop_fail:
  assumes "isReported item = Inr True" and "exists_in st item = Inr False" and "build item" and "\<not> ok 0"
  shows "forLoop build ok (item # rest) st [] = (Some DeliveryError, st, [(item, False)])"
  using assms by simp

lemma forLoop_skip:
  assumes "isReported item = Inr False \<or> (isReported item = Inr True \<and> exists_in st item = Inr True)"
  shows "forLoop build ok (item # rest) st [] = forLoop build ok rest st []"
  using assms by auto

text \<open>
  The ways an item ends the loop: a TypeError of line 57 or of line 61, or the builder
  rejecting its embed.
\<close>

lemma forLoop_throw:
  assumes "isReported item = Inl e
           \<or> (isReported item = Inr True \<and> exists_in st item = Inl e)
           \<or> (isReported item = Inr True \<and> exists_in st item = Inr False \<and> \<not> build item
               \<and> e = ValidationError)"
  shows "forLoop build ok (item # rest) st [] = (Some e, st, [])"
  using assms by auto

lemma forLoop_cases:
  obtains (throw) e where
      "isReported item = Inl e
       \<or> (isReported item = Inr True \<and> exists_in st item = Inl e)
       \<or> (isReported item = Inr True \<and> exists_in st item = Inr False \<and> \<not> build item
           \<and> e = ValidationError)"
  | (skip) "isReported item = Inr False \<or> (isReported item = Inr True \<and> exists_in st item = Inr True)"
  | (send) "isReported item = Inr True" "exists_in st item = Inr False" "build item"
proof (cases "isReported item")
  case (Inl e) then show ?thesis using throw [of e] by simp
next
  case (Inr b)
  show ?thesis
  proof (cases b)
    case False with Inr show ?thesis using skip by simp
  next
    case True
    show ?thesis
    proof (cases "exists_in st item")
      case (Inl e) with Inr True show ?thesis using throw [of e] by simp
    next
      case (Inr c)
      with \<open>isReported item = Inr b\<close> True show ?thesis
        using skip send throw [of ValidationError] by (cases c; cases "build item") auto
    qed
  qed
qed

declare forLoop.simps(2) [simp del]

lemma exists_in_array: "exists_in st item = Inr b \<Longrightarrow> \<exists>es. st = JArr es"
  by (cases st) (simp_all add: exists_in_def)

text \<open>The state after the loop is the state before it with the record of every resolved send pushed.\<close>

lemma forLoop_state:
  "forLoop build ok items st [] = (e, st', new) \<Longrightarrow>
     st' = foldl push st (map notificationRecord (delivered new)) \<and> (new \<noteq> [] \<longrightarrow> (\<exists>es. st = JArr es))"
proof (induction items arbitrary: st ok e st' new)
  case Nil
  then show ?case by (simp add: delivered_def)
next
  case (Cons item rest)
  show ?case
  proof (cases rule: forLoop_cases [of item st build])
    case (throw x)
    from forLoop_throw [where build = build, OF this] Cons.prems show ?thesis by (simp add: delivered_def)
  next
    case skip
    from forLoop_skip [OF this] Cons.prems Cons.IH show ?thesis by simp
  next
    case send
    show ?thesis
    proof (cases "ok 0")
      case False
      from forLoop_fail [where build = build and ok = ok, OF send False] Cons.prems exists_in_array [OF send(2)]
      show ?thesis by (auto simp add: delivered_def)
    next
      case True
      obtain e2 st2 new2 where r: "forLoop build (\<lambda>n. ok (Suc n)) rest (push st (notificationRecord item)) [] = (e2, st2, new2)"
        by (cases "forLoop build (\<lambda>n. ok (Suc n)) rest (push st (notificationRecord item)) []") auto
      from forLoop_send [where build = build and ok = ok and rest = rest, OF send True] r Cons.prems
      have eq: "e = e2" "st' = st2" "new = (item, True) # new2" by simp_all
      from Cons.IH [OF r] eq exists_in_array [OF send(2)]
      show ?thesis by (auto simp add: delivered_def)
    qed
  qed
qed

text \<open>The delivery queue, one item at a time.\<close>

lemma deliveryQueue_send:
  assumes "isReported item = Inr True" and "exists_in st item = Inr False" and "build item"
  shows "deliveryQueue build (item # rest) st = item # deliveryQueue build rest (push st (notificationRecord item))"
  using forLoop_send [where build = build and ok = "\<lambda>n. True" and rest = rest, OF assms]
  by (simp add: deliveryQueue_def split: prod.splits)

lemma deliveryQueue_skip:
  assumes "isReported item = Inr False \<or> (isReported item = Inr True \<and> exists_in st item = Inr True)"
  shows "deliveryQueue build (item # rest) st = deliveryQueue build rest st"
  using forLoop_skip [OF assms] by (simp add: deliveryQueue_def)

lemma deliveryQueue_throw:
  assumes "isReported item = Inl e
           \<or> (isReported item = Inr True \<and> exists_in st item = Inl e)
           \<or> (isReported item = Inr True \<and> exists_in st item = Inr False \<and> \<not> build item
               \<and> e = ValidationError)"
  shows "deliveryQueue build (item # rest) st = []"
  using forLoop_throw [where build = build, OF assms] by (simp add: deliveryQueue_def)

lemma forLoop_fail_at:
  assumes "k < length (deliveryQueue build items st)" and "\<forall>n<k. ok n" and "\<not> ok k"
  shows "forLoop build ok items st [] =
           (Some DeliveryError,
            foldl push st (map notificationRecord (take k (deliveryQueue build items st))),
            map (\<lambda>i. (i, True)) (take k (deliveryQueue build items st)) @ [(deliveryQueue build items st ! k, False)])"
  using assms
proof (induction items arbitrary: st ok k)
  case Nil
  then show ?case by (simp add: deliveryQueue_def)
next
  case (Cons item rest)
  show ?case
  proof (cases rule: forLoop_cases [of item st build])
    case (throw x)
    from deliveryQueue_throw [where build = build, OF this] Cons.prems show ?thesis by simp
  next
    case skip
    have q: "deliveryQueue build (item # rest) st = deliveryQueue build rest st"
      by (rule deliveryQueue_skip [OF skip])
    have f: "forLoop build ok (item # rest) st [] = forLoop build ok rest st []"
      by (rule forLoop_skip [OF skip])
    from Cons.IH [of k st ok] Cons.prems show ?thesis unfolding q f by simp
  next
    case send
    let ?st = "push st (notificationRecord item)"
    have q: "deliveryQueue build (item # rest) st = item # deliveryQueue build rest ?st"
      by (rule deliveryQueue_send [where build = build, OF send])
    show ?thesis
    proof (cases k)
      case 0
      with Cons.prems have "\<not> ok 0" by simp
      from forLoop_fail [where build = build and ok = ok, OF send this] 0 show ?thesis unfolding q by simp
    next
      case (Suc j)
      with Cons.prems have ok0: "ok 0" by simp
      have j: "j < length (deliveryQueue build rest ?st)" "\<forall>n<j. ok (Suc n)" "\<not> ok (Suc j)"
        using Cons.prems Suc unfolding q by auto
      from Cons.IH [of j ?st "\<lambda>n. ok (Suc n)", OF j]
      show ?thesis
        unfolding q Suc forLoop_send [where build = build and ok = ok, OF send ok0] by simp
    qed
  qed
qed


lemma foldl_push_array: "foldl push (JArr es) rs = JArr (es @ rs)"
  by (induction rs arbitrary: es) simp_all

lemma main_unfold:
  "tryBlock tv w (loadState (stateFile w)) = (caught (main tv w), hd (saveCalls (main tv w)), sends (main tv w))
   \<and> saveCalls (main tv w) = [hd (saveCalls (main tv w))]"
  by (simp add: main_def Let_def saveState_def split: prod.splits)

lemma tryBlock_state:
  assumes "tryBlock tv w st = (e, st', calls)"
  shows "st' = foldl push st (map notificationRecord (delivered calls)) \<and> (calls \<noteq> [] \<longrightarrow> (\<exists>es. st = JArr es))"
proof (cases "fetchEarnings tv w")
  case (Inl x)
  with assms show ?thesis by (simp add: tryBlock_def delivered_def)
next
  case (Inr earnings)
  with assms have "forLoop (buildOk w) (sendOk w) earnings st [] = (e, st', calls)" by (simp add: tryBlock_def)
  from forLoop_state [OF this] show ?thesis .
qed

lemma isReported_readable: "isReported item = Inr b \<Longrightarrow> readable item"
  by (cases item) (simp_all add: isReported_def readable_def)

lemma getProp_readable: "readable v \<Longrightarrow> getProp v k = Inr (fieldOf v k)"
  by (cases v) (simp_all add: readable_def fieldOf_def)

lemma getProp_record:
  "getProp (notificationRecord item) ''symbol'' = Inr (fieldOf item ''symbol'')"
  "getProp (notificationRecord item) ''date'' = Inr (fieldOf item ''date'')"
  by (simp_all add: notificationRecord_def)

lemma sameKey_record: "readable item \<Longrightarrow> sameKey (notificationRecord item) e = sameKey item e"
  by (simp add: sameKey_def getProp_record getProp_readable cong: sum.case_cong if_cong)

lemma some_False: "some f es = Inr False \<longleftrightarrow> (\<forall>e \<in> set es. f e = Inr False)"
  by (induction es) (auto split: sum.splits bool.splits)

lemma some_append_True: "some f es = Inr True \<Longrightarrow> some f (es @ fs) = Inr True"
  by (induction es) (auto split: sum.splits bool.splits)

lemma some_append_False: "some f es = Inr False \<Longrightarrow> some f (es @ fs) = some f fs"
  by (induction es) (auto split: sum.splits bool.splits)

lemma forLoop_distinct:
  "forLoop build ok items (JArr es) [] = (e, st', new) \<Longrightarrow> distinctKeys es
     \<Longrightarrow> distinctKeys (es @ map notificationRecord (delivered new))"
proof (induction items arbitrary: es ok e st' new)
  case Nil
  then show ?case by (simp add: delivered_def)
next
  case (Cons item rest)
  show ?case
  proof (cases rule: forLoop_cases [of item "JArr es" build])
    case (throw x)
    from forLoop_throw [where build = build, OF this] Cons.prems show ?thesis by (simp add: delivered_def)
  next
    case skip
    from forLoop_skip [OF this] Cons.prems Cons.IH show ?thesis by simp
  next
    case send
    have fresh: "\<forall>a \<in> set es. sameKey (notificationRecord item) a \<noteq> Inr True"
      using send isReported_readable [OF send(1)]
      by (simp add: exists_in_def some_False sameKey_record)
    show ?thesis
    proof (cases "ok 0")
      case False
      from forLoop_fail [where build = build and ok = ok, OF send False] Cons.prems
      show ?thesis by (auto simp add: delivered_def)
    next
      case True
      let ?es = "es @ [notificationRecord item]"
      obtain e2 st2 new2 where r: "forLoop build (\<lambda>n. ok (Suc n)) rest (JArr ?es) [] = (e2, st2, new2)"
        by (cases "forLoop build (\<lambda>n. ok (Suc n)) rest (JArr ?es) []") auto
      from forLoop_send [where build = build and ok = ok and rest = rest, OF send True] r Cons.prems
      have eq: "new = (item, True) # new2" by simp
      have "distinctKeys ?es"
        using Cons.prems(2) fresh by (simp add: distinctKeys_def sorted_wrt_append)
      from Cons.IH [OF r this] eq show ?thesis by (simp add: delivered_def)
    qed
  qed
qed


lemma reparse_json: "jsonValue v \<Longrightarrow> reparse v = v"
proof (induction v)
  case (JArr xs)
  have "map (\<lambda>x. if x = JUndefined then JNull else reparse x) xs = map (\<lambda>x. x) xs"
  proof (rule map_cong [OF refl])
    fix x assume x: "x \<in> set xs"
    with JArr.prems have j: "jsonValue x" by simp
    then have "x \<noteq> JUndefined" by auto
    with JArr.IH [OF x j] show "(if x = JUndefined then JNull else reparse x) = x" by simp
  qed
  then show ?case by simp
next
  case (JObj kvs)
  from JObj.prems have f: "filter (\<lambda>kv. snd kv \<noteq> JUndefined) kvs = kvs"
    by (auto simp add: filter_id_conv)
  have "map (\<lambda>kv. (fst kv, reparse (snd kv))) kvs = map (\<lambda>kv. kv) kvs"
  proof (rule map_cong [OF refl])
    fix kv assume kv: "kv \<in> set kvs"
    with JObj.prems have j: "jsonValue (snd kv)" by simp
    have "snd kv \<in> Basic_BNFs.snds kv" by (cases kv) simp
    from JObj.IH [OF kv this j] show "(fst kv, reparse (snd kv)) = kv" by simp
  qed
  with f show ?case by simp
qed simp_all

lemma strictEq_reparse: "strictEq (reparse x) (reparse y) = strictEq x y"
  by (cases x; cases y) simp_all

lemma strictEq_reparse_left: "strictEq (reparse x) y = strictEq x y"
  by (cases x; cases y) simp_all

lemma getProp_json: "jsonValue e \<Longrightarrow> getProp e k = Inr v \<Longrightarrow> reparse v = v"
proof (cases e)
  case (JObj kvs)
  assume j: "jsonValue e" and g: "getProp e k = Inr v"
  show ?thesis
  proof (cases "map_of kvs k")
    case None
    with g JObj show ?thesis by simp
  next
    case (Some u)
    then have "(k, u) \<in> set kvs" by (rule map_of_SomeD)
    with j JObj have "jsonValue u" by auto
    with g JObj Some show ?thesis by (simp add: reparse_json)
  qed
qed auto

text \<open>The elements a state holds: values read from the state file, and records pushed.\<close>

lemma getProp_reparse:
  assumes "jsonValue e \<or> (\<exists>i. e = notificationRecord i)"
    and "k = ''symbol'' \<or> k = ''date''"
  shows "getProp (reparse e) k = (case getProp e k of Inl x \<Rightarrow> Inl x | Inr v \<Rightarrow> Inr (reparse v))"
  using assms(1)
proof
  assume j: "jsonValue e"
  then have "reparse e = e" by (rule reparse_json)
  with getProp_json [OF j] show ?thesis by (cases "getProp e k") simp_all
next
  assume "\<exists>i. e = notificationRecord i"
  then obtain i where "e = notificationRecord i" ..
  with assms(2) show ?thesis
    by (auto simp add: notificationRecord_def)
qed

lemma sameKey_reparse_both:
  assumes "jsonValue a \<or> (\<exists>i. a = notificationRecord i)"
    and "jsonValue b \<or> (\<exists>i. b = notificationRecord i)"
  shows "sameKey (reparse b) (reparse a) = sameKey b a"
  unfolding sameKey_def
  by (simp add: getProp_reparse [OF assms(1)] getProp_reparse [OF assms(2)] strictEq_reparse
        split: sum.splits)

lemma sameKey_reparse_right:
  assumes "jsonValue e \<or> (\<exists>i. e = notificationRecord i)"
  shows "sameKey item (reparse e) = sameKey item e"
  unfolding sameKey_def
  by (simp add: getProp_reparse [OF assms] strictEq_reparse_left split: sum.splits)

lemma distinctKeys_reparse:
  assumes "\<forall>x \<in> set xs. jsonValue x \<or> (\<exists>i. x = notificationRecord i)" and "distinctKeys xs"
  shows "distinctKeys (map reparse xs)"
proof -
  have "sorted_wrt (\<lambda>a b. sameKey (reparse b) (reparse a) \<noteq> Inr True) xs"
  proof (rule sorted_wrt_mono_rel [OF _ assms(2) [unfolded distinctKeys_def]])
    fix a b assume "a \<in> set xs" "b \<in> set xs" "sameKey b a \<noteq> Inr True"
    with assms(1) show "sameKey (reparse b) (reparse a) \<noteq> Inr True"
      by (simp add: sameKey_reparse_both)
  qed
  then show ?thesis by (simp add: distinctKeys_def sorted_wrt_map)
qed

lemma reparse_array:
  assumes "\<forall>x \<in> set xs. jsonValue x \<or> (\<exists>i. x = notificationRecord i)"
  shows "reparse (JArr xs) = JArr (map reparse xs)"
proof -
  have "map (\<lambda>x. if x = JUndefined then JNull else reparse x) xs = map reparse xs"
  proof (rule map_cong [OF refl])
    fix x assume "x \<in> set xs"
    with assms have "x \<noteq> JUndefined" by (auto simp add: notificationRecord_def)
    then show "(if x = JUndefined then JNull else reparse x) = reparse x" by simp
  qed
  then show ?thesis by simp
qed

lemma main_written:
  "written (main tv w) =
     (if hd (saveCalls (main tv w)) \<noteq> JUndefined \<and> writeOk w
      then Some (reparse (hd (saveCalls (main tv w)))) else None)"
  by (simp add: main_def Let_def saveState_def split: prod.splits)

lemma sameKey_record_right: "readable item \<Longrightarrow> sameKey x (notificationRecord item) = sameKey x item"
  by (simp add: sameKey_def getProp_record getProp_readable cong: sum.case_cong if_cong)

lemma strictEq_refl: "primitive v \<Longrightarrow> strictEq v v"
  by (cases v) simp_all

lemma sameKey_self:
  "plainKey item \<Longrightarrow> readable item \<Longrightarrow> sameKey item (notificationRecord item) = Inr True"
  by (simp add: sameKey_def getProp_record getProp_readable plainKey_def strictEq_refl)

lemma forLoop_checked:
  "forLoop build ok items st [] = (e, st', new) \<Longrightarrow>
     \<forall>j < length new.
        exists_in (foldl push st (map notificationRecord (delivered (take j new)))) (fst (new ! j)) = Inr False"
proof (induction items arbitrary: st ok e st' new)
  case Nil
  then show ?case by simp
next
  case (Cons item rest)
  show ?case
  proof (cases rule: forLoop_cases [of item st build])
    case (throw x)
    from forLoop_throw [where build = build, OF this] Cons.prems show ?thesis by simp
  next
    case skip
    from forLoop_skip [OF this] Cons.prems Cons.IH show ?thesis by simp
  next
    case send
    show ?thesis
    proof (cases "ok 0")
      case False
      from forLoop_fail [where build = build and ok = ok, OF send False] Cons.prems send(2)
      show ?thesis by (auto simp add: delivered_def)
    next
      case True
      let ?st = "push st (notificationRecord item)"
      obtain e2 st2 new2 where r: "forLoop build (\<lambda>n. ok (Suc n)) rest ?st [] = (e2, st2, new2)"
        by (cases "forLoop build (\<lambda>n. ok (Suc n)) rest ?st []") auto
      from forLoop_send [where build = build and ok = ok and rest = rest, OF send True] r Cons.prems
      have eq: "new = (item, True) # new2" by simp
      show ?thesis
      proof (intro allI impI)
        fix j assume j: "j < length new"
        show "exists_in (foldl push st (map notificationRecord (delivered (take j new)))) (fst (new ! j)) = Inr False"
        proof (cases j)
          case 0
          with eq send(2) show ?thesis by (simp add: delivered_def)
        next
          case (Suc i)
          with j eq have "i < length new2" by simp
          with Cons.IH [OF r] Suc eq show ?thesis by (simp add: delivered_def)
        qed
      qed
    qed
  qed
qed

lemma forLoop_sends_fresh:
  "forLoop build ok items (JArr es) [] = (e, st', new) \<Longrightarrow>
     \<forall>x \<in> set new. \<forall>a \<in> set es. sameKey (fst x) a = Inr False"
proof (induction items arbitrary: es ok e st' new)
  case Nil
  then show ?case by simp
next
  case (Cons item rest)
  show ?case
  proof (cases rule: forLoop_cases [of item "JArr es" build])
    case (throw x)
    from forLoop_throw [where build = build, OF this] Cons.prems show ?thesis by simp
  next
    case skip
    from forLoop_skip [OF this] Cons.prems Cons.IH show ?thesis by simp
  next
    case send
    have fresh: "\<forall>a \<in> set es. sameKey item a = Inr False"
      using send(2) by (simp add: exists_in_def some_False)
    show ?thesis
    proof (cases "ok 0")
      case False
      from forLoop_fail [where build = build and ok = ok, OF send False] Cons.prems fresh
      show ?thesis by auto
    next
      case True
      let ?es = "es @ [notificationRecord item]"
      obtain e2 st2 new2 where r: "forLoop build (\<lambda>n. ok (Suc n)) rest (JArr ?es) [] = (e2, st2, new2)"
        by (cases "forLoop build (\<lambda>n. ok (Suc n)) rest (JArr ?es) []") auto
      from forLoop_send [where build = build and ok = ok and rest = rest, OF send True] r Cons.prems
      have eq: "new = (item, True) # new2" by simp
      from Cons.IH [OF r] fresh eq show ?thesis by auto
    qed
  qed
qed

lemma forLoop_sends_distinct:
  "forLoop build ok items st [] = (e, st', new) \<Longrightarrow> distinctKeys (map fst new)"
proof (induction items arbitrary: st ok e st' new)
  case Nil
  then show ?case by (simp add: distinctKeys_def)
next
  case (Cons item rest)
  show ?case
  proof (cases rule: forLoop_cases [of item st build])
    case (throw x)
    from forLoop_throw [where build = build, OF this] Cons.prems show ?thesis by (simp add: distinctKeys_def)
  next
    case skip
    from forLoop_skip [OF this] Cons.prems Cons.IH show ?thesis by simp
  next
    case send
    from exists_in_array [OF send(2)] obtain es where es: "st = JArr es" ..
    show ?thesis
    proof (cases "ok 0")
      case False
      from forLoop_fail [where build = build and ok = ok, OF send False] Cons.prems
      show ?thesis by (auto simp add: distinctKeys_def)
    next
      case True
      let ?es = "es @ [notificationRecord item]"
      obtain e2 st2 new2 where r: "forLoop build (\<lambda>n. ok (Suc n)) rest (JArr ?es) [] = (e2, st2, new2)"
        by (cases "forLoop build (\<lambda>n. ok (Suc n)) rest (JArr ?es) []") auto
      from forLoop_send [where build = build and ok = ok and rest = rest, OF send True] r Cons.prems es
      have eq: "new = (item, True) # new2" by simp
      from forLoop_sends_fresh [OF r]
      have "\<forall>x \<in> set new2. sameKey (fst x) (notificationRecord item) = Inr False" by simp
      then have "\<forall>x \<in> set new2. sameKey (fst x) item \<noteq> Inr True"
        using isReported_readable [OF send(1)] by (simp add: sameKey_record_right)
      with Cons.IH [OF r] eq show ?thesis by (simp add: distinctKeys_def)
    qed
  qed
qed

lemma exists_in_mono:
  assumes "forLoop build ok items st [] = (e, st', new)" and "exists_in st item = Inr True"
  shows "exists_in st' item = Inr True"
proof -
  from exists_in_array [OF assms(2)] obtain es where es: "st = JArr es" ..
  with forLoop_state [OF assms(1)]
  have "st' = JArr (es @ map notificationRecord (delivered new))"
    by (simp add: foldl_push_array)
  with assms(2) es show ?thesis
    by (simp add: exists_in_def some_append_True)
qed

lemma forLoop_None_recorded:
  assumes "forLoop build ok items st [] = (None, st', new)" and "\<forall>item \<in> set items. plainKey item"
  shows "\<forall>item \<in> set items.
           isReported item = Inr False \<or> (isReported item = Inr True \<and> exists_in st' item = Inr True)"
  using assms
proof (induction items arbitrary: st ok new)
  case Nil
  then show ?case by simp
next
  case (Cons item rest)
  show ?case
  proof (cases rule: forLoop_cases [of item st build])
    case (throw x)
    from forLoop_throw [where build = build, OF this] Cons.prems show ?thesis by simp
  next
    case skip
    from forLoop_skip [OF skip] Cons.prems(1)
    have r: "forLoop build ok rest st [] = (None, st', new)" by simp
    from Cons.IH [OF r] Cons.prems(2) skip exists_in_mono [OF r]
    show ?thesis by auto
  next
    case send
    show ?thesis
    proof (cases "ok 0")
      case False
      from forLoop_fail [where build = build and ok = ok, OF send False] Cons.prems show ?thesis by simp
    next
      case True
      from exists_in_array [OF send(2)] obtain es where es: "st = JArr es" ..
      let ?st = "JArr (es @ [notificationRecord item])"
      obtain e2 st2 new2 where r: "forLoop build (\<lambda>n. ok (Suc n)) rest ?st [] = (e2, st2, new2)"
        by (cases "forLoop build (\<lambda>n. ok (Suc n)) rest ?st []") auto
      from forLoop_send [where build = build and ok = ok and rest = rest, OF send True] r Cons.prems(1) es
      have eq: "e2 = None" "st2 = st'" by simp_all
      have "some (sameKey item) es = Inr False"
        using send(2) es by (simp add: exists_in_def)
      then have "exists_in ?st item = Inr True"
        using Cons.prems(2) isReported_readable [OF send(1)]
        by (simp add: exists_in_def some_append_False sameKey_self)
      from exists_in_mono [OF r this] eq have "exists_in st' item = Inr True" by simp
      with Cons.IH [of "\<lambda>n. ok (Suc n)" ?st new2] r eq Cons.prems(2) send(1)
      show ?thesis by simp
    qed
  qed
qed

lemma forLoop_all_skipped:
  "\<forall>item \<in> set items.
      isReported item = Inr False \<or> (isReported item = Inr True \<and> exists_in st item = Inr True)
   \<Longrightarrow> forLoop build ok items st [] = (None, st, [])"
proof (induction items)
  case Nil
  then show ?case by simp
next
  case (Cons item rest)
  then have "isReported item = Inr False \<or> (isReported item = Inr True \<and> exists_in st item = Inr True)"
    by simp
  from forLoop_skip [OF this] Cons show ?case by simp
qed

lemma exists_in_reparse:
  assumes "\<forall>x \<in> set xs. jsonValue x \<or> (\<exists>i. x = notificationRecord i)"
  shows "exists_in (reparse (JArr xs)) item = exists_in (JArr xs) item"
proof -
  have "some (sameKey item) (map reparse xs) = some (sameKey item) xs"
    using assms by (induction xs) (simp_all add: sameKey_reparse_right cong: sum.case_cong bool.case_cong)
  with reparse_array [OF assms] show ?thesis by (simp add: exists_in_def del: reparse.simps)
qed

lemma second_run_silent:
  assumes fe: "fetchEarnings tv w = Inr earnings"
    and pk: "\<forall>item \<in> set earnings. plainKey item"
    and js: "jsonValue (loadState (stateFile w))"
    and ok: "caught (main tv w) = None"
    and wr: "written (main tv w) = Some v"
    and f': "stateFile w' = Json v"
    and u': "upstream w' = upstream w"
  shows "sends (main tv w') = []"
proof -
  let ?st0 = "loadState (stateFile w)"
  let ?state = "hd (saveCalls (main tv w))"
  have t: "tryBlock tv w ?st0 = (None, ?state, sends (main tv w))"
    using main_unfold [of tv w] ok by simp
  with fe have loop: "forLoop (buildOk w) (sendOk w) earnings ?st0 [] = (None, ?state, sends (main tv w))"
    by (simp add: tryBlock_def)
  note rec = forLoop_None_recorded [OF loop pk]
  from wr have v: "v = reparse ?state"
    unfolding main_written [of tv w] by (simp split: if_splits)
  have same: "exists_in v item = exists_in ?state item" for item
  proof (cases "\<exists>es. ?st0 = JArr es")
    case True
    then obtain es where es: "?st0 = JArr es" ..
    let ?xs = "es @ map notificationRecord (delivered (sends (main tv w)))"
    from forLoop_state [OF loop] es have st: "?state = JArr ?xs"
      by (simp add: foldl_push_array)
    have "\<forall>x \<in> set ?xs. jsonValue x \<or> (\<exists>i. x = notificationRecord i)"
      using js es by auto
    from exists_in_reparse [OF this] show ?thesis unfolding v st .
  next
    case False
    with forLoop_state [OF loop] have "sends (main tv w) = []" by auto
    with forLoop_state [OF loop] have "?state = ?st0" by (simp add: delivered_def)
    with js have "reparse ?state = ?state" by (simp add: reparse_json)
    with v show ?thesis by simp
  qed
  have "\<forall>item \<in> set earnings.
           isReported item = Inr False \<or> (isReported item = Inr True \<and> exists_in v item = Inr True)"
    using rec by (simp only: same)
  from forLoop_all_skipped [OF this]
  have "forLoop (buildOk w') (sendOk w') earnings v [] = (None, v, [])" .
  moreover have "fetchEarnings tv w' = Inr earnings"
    using fe u' by (simp add: fetchEarnings_def)
  moreover have "loadState (stateFile w') = v"
    using f' by (simp add: loadState_def)
  ultimately have "tryBlock tv w' (loadState (stateFile w')) = (None, v, [])"
    by (simp add: tryBlock_def)
  with main_unfold [of tv w'] show ?thesis by simp
qed

lemma main_checked:
  "\<forall>j < length (sends (main tv w)).
      exists_in (foldl push (loadState (stateFile w))
                   (map notificationRecord (delivered (take j (sends (main tv w))))))
        (fst (sends (main tv w) ! j)) = Inr False"
proof (cases "fetchEarnings tv w")
  case (Inl x)
  with main_unfold [of tv w] show ?thesis by (simp add: tryBlock_def)
next
  case (Inr earnings)
  with main_unfold [of tv w]
  have "forLoop (buildOk w) (sendOk w) earnings (loadState (stateFile w)) []
          = (caught (main tv w), hd (saveCalls (main tv w)), sends (main tv w))"
    by (simp add: tryBlock_def)
  from forLoop_checked [OF this] show ?thesis .
qed

lemma main_sends_distinct: "distinctKeys (map fst (sends (main tv w)))"
proof (cases "fetchEarnings tv w")
  case (Inl x)
  with main_unfold [of tv w] show ?thesis by (simp add: tryBlock_def distinctKeys_def)
next
  case (Inr earnings)
  with main_unfold [of tv w]
  have "forLoop (buildOk w) (sendOk w) earnings (loadState (stateFile w)) []
          = (caught (main tv w), hd (saveCalls (main tv w)), sends (main tv w))"
    by (simp add: tryBlock_def)
  from forLoop_sends_distinct [OF this] show ?thesis .
qed

lemma strictEq_JNull: "strictEq v JNull = (v = JNull)"
  by (cases v) simp_all

lemma isReported_hasActual: "readable item \<Longrightarrow> isReported item = Inr (hasActual item)"
  by (auto simp add: isReported_def getProp_readable hasActual_def strictEq_JNull)

lemma forLoop_None_complete:
  assumes "forLoop build ok items st [] = (None, st', new)"
  shows "\<forall>item \<in> set items.
           isReported item = Inr False
           \<or> (isReported item = Inr True \<and> ((item, True) \<in> set new \<or> exists_in st' item = Inr True))"
  using assms
proof (induction items arbitrary: st ok new)
  case Nil
  then show ?case by simp
next
  case (Cons item rest)
  show ?case
  proof (cases rule: forLoop_cases [of item st build])
    case (throw x)
    from forLoop_throw [where build = build, OF this] Cons.prems show ?thesis by simp
  next
    case skip
    from forLoop_skip [OF skip] Cons.prems(1)
    have r: "forLoop build ok rest st [] = (None, st', new)" by simp
    from Cons.IH [OF r] skip exists_in_mono [OF r]
    show ?thesis by auto
  next
    case send
    show ?thesis
    proof (cases "ok 0")
      case False
      from forLoop_fail [where build = build and ok = ok, OF send False] Cons.prems show ?thesis by simp
    next
      case True
      let ?st = "push st (notificationRecord item)"
      obtain e2 st2 new2 where r: "forLoop build (\<lambda>n. ok (Suc n)) rest ?st [] = (e2, st2, new2)"
        by (cases "forLoop build (\<lambda>n. ok (Suc n)) rest ?st []") auto
      from forLoop_send [where build = build and ok = ok and rest = rest, OF send True] r Cons.prems(1)
      have eq: "e2 = None" "st2 = st'" "new = (item, True) # new2" by simp_all
      from Cons.IH [of "\<lambda>n. ok (Suc n)" ?st new2] r eq send(1)
      show ?thesis by auto
    qed
  qed
qed

lemma forLoop_sends_reported:
  "forLoop build ok items st [] = (e, st', new) \<Longrightarrow>
     \<forall>x \<in> set new. fst x \<in> set items \<and> isReported (fst x) = Inr True"
proof (induction items arbitrary: st ok e st' new)
  case Nil
  then show ?case by simp
next
  case (Cons item rest)
  show ?case
  proof (cases rule: forLoop_cases [of item st build])
    case (throw x)
    from forLoop_throw [where build = build, OF this] Cons.prems show ?thesis by simp
  next
    case skip
    from forLoop_skip [OF this] Cons.prems Cons.IH show ?thesis by auto
  next
    case send
    show ?thesis
    proof (cases "ok 0")
      case False
      from forLoop_fail [where build = build and ok = ok, OF send False] Cons.prems send(1)
      show ?thesis by auto
    next
      case True
      let ?st = "push st (notificationRecord item)"
      obtain e2 st2 new2 where r: "forLoop build (\<lambda>n. ok (Suc n)) rest ?st [] = (e2, st2, new2)"
        by (cases "forLoop build (\<lambda>n. ok (Suc n)) rest ?st []") auto
      from forLoop_send [where build = build and ok = ok and rest = rest, OF send True] r Cons.prems
      have eq: "new = (item, True) # new2" by simp
      from Cons.IH [OF r] eq send(1) show ?thesis by auto
    qed
  qed
qed

lemma sends_prefix_queue:
  "forLoop build ok items st [] = (e, st', new) \<Longrightarrow> prefix (map fst new) (deliveryQueue build items st)"
proof (induction items arbitrary: st ok e st' new)
  case Nil
  then show ?case by simp
next
  case (Cons item rest)
  show ?case
  proof (cases rule: forLoop_cases [of item st build])
    case (throw x)
    from forLoop_throw [where build = build, OF this] Cons.prems show ?thesis by simp
  next
    case skip
    from forLoop_skip [OF skip] deliveryQueue_skip [OF skip] Cons.prems Cons.IH show ?thesis by simp
  next
    case send
    show ?thesis
    proof (cases "ok 0")
      case False
      from forLoop_fail [where build = build and ok = ok, OF send False] Cons.prems deliveryQueue_send [where build = build, OF send]
      show ?thesis by auto
    next
      case True
      let ?st = "push st (notificationRecord item)"
      obtain e2 st2 new2 where r: "forLoop build (\<lambda>n. ok (Suc n)) rest ?st [] = (e2, st2, new2)"
        by (cases "forLoop build (\<lambda>n. ok (Suc n)) rest ?st []") auto
      from forLoop_send [where build = build and ok = ok and rest = rest, OF send True] r Cons.prems
      have eq: "new = (item, True) # new2" by simp
      from Cons.IH [OF r] eq deliveryQueue_send [where build = build, OF send] show ?thesis by simp
    qed
  qed
qed


lemma main_loop:
  assumes "fetchEarnings tv w = Inr earnings"
  shows "forLoop (buildOk w) (sendOk w) earnings (loadState (stateFile w)) []
          = (caught (main tv w), hd (saveCalls (main tv w)), sends (main tv w))"
  using main_unfold [of tv w] assms by (simp add: tryBlock_def)

lemma main_no_fetch:
  assumes "fetchEarnings tv w = Inl x"
  shows "sends (main tv w) = []" and "caught (main tv w) = Some x"
  using main_unfold [of tv w] assms by (simp_all add: tryBlock_def)

lemma main_sends_reported:
  "\<forall>x \<in> set (sends (main tv w)). readable (fst x) \<and> hasActual (fst x)"
proof (cases "fetchEarnings tv w")
  case (Inl x)
  from main_no_fetch(1) [OF this] show ?thesis by simp
next
  case (Inr earnings)
  from forLoop_sends_reported [OF main_loop [OF Inr]]
  have r: "\<forall>x \<in> set (sends (main tv w)). isReported (fst x) = Inr True" by simp
  show ?thesis
  proof
    fix x assume "x \<in> set (sends (main tv w))"
    with r have i: "isReported (fst x) = Inr True" by simp
    from isReported_readable [OF i] isReported_hasActual [of "fst x"] i
    show "readable (fst x) \<and> hasActual (fst x)" by simp
  qed
qed

lemma main_complete:
  assumes "caught (main tv w) = None" and "fetchEarnings tv w = Inr earnings" and "item \<in> set earnings"
  shows "readable item"
    and "hasActual item \<Longrightarrow>
           (item, True) \<in> set (sends (main tv w)) \<or> exists_in (hd (saveCalls (main tv w))) item = Inr True"
proof -
  from main_loop [OF assms(2)] assms(1)
  have "forLoop (buildOk w) (sendOk w) earnings (loadState (stateFile w)) []
          = (None, hd (saveCalls (main tv w)), sends (main tv w))" by simp
  from forLoop_None_complete [OF this] assms(3)
  have c: "isReported item = Inr False
           \<or> (isReported item = Inr True
               \<and> ((item, True) \<in> set (sends (main tv w)) \<or> exists_in (hd (saveCalls (main tv w))) item = Inr True))"
    by simp
  then show r: "readable item" by (auto dest: isReported_readable)
  assume "hasActual item"
  with isReported_hasActual [OF r] c
  show "(item, True) \<in> set (sends (main tv w)) \<or> exists_in (hd (saveCalls (main tv w))) item = Inr True"
    by simp
qed

lemma queue_reported:
  "\<forall>x \<in> set (deliveryQueue build earnings st). x \<in> set earnings \<and> hasActual x"
proof -
  obtain e st' new where r: "forLoop build (\<lambda>n. True) earnings st [] = (e, st', new)"
    by (cases "forLoop build (\<lambda>n. True) earnings st []") auto
  from forLoop_sends_reported [OF r] have
    "\<forall>x \<in> set new. fst x \<in> set earnings \<and> isReported (fst x) = Inr True" .
  moreover have "isReported x = Inr True \<Longrightarrow> hasActual x" for x
    using isReported_readable [of x True] isReported_hasActual [of x] by simp
  ultimately show ?thesis using r by (auto simp add: deliveryQueue_def)
qed



















section \<open>Rounding to a double and printing two decimals\<close>

lemma roundHalfEven_near: "\<bar>of_int (roundHalfEven r) - r\<bar> \<le> 1 / 2"
proof -
  have "of_int \<lfloor>r\<rfloor> \<le> r" "r < of_int \<lfloor>r\<rfloor> + 1" by linarith+
  then show ?thesis by (auto simp: roundHalfEven_def Let_def)
qed

lemma roundHalfEven_ge: "of_int k \<le> r \<Longrightarrow> k \<le> roundHalfEven r"
proof -
  assume "of_int k \<le> r"
  then have "k \<le> \<lfloor>r\<rfloor>" by (simp add: le_floor_iff)
  then show ?thesis by (auto simp: roundHalfEven_def Let_def)
qed

lemma roundHalfEven_le: "r \<le> of_int k \<Longrightarrow> roundHalfEven r \<le> k"
proof -
  assume a: "r \<le> of_int k"
  then have f: "\<lfloor>r\<rfloor> \<le> k" by (simp add: floor_le_iff) 
  show ?thesis
  proof (cases "\<lfloor>r\<rfloor> = k")
    case True
    then have "r = of_int \<lfloor>r\<rfloor>" using a by (metis of_int_floor_le order_antisym)
    then have "r - of_int \<lfloor>r\<rfloor> = 0" by simp
    then show ?thesis using True by (simp add: roundHalfEven_def Let_def)
  next
    case False
    then have "\<lfloor>r\<rfloor> + 1 \<le> k" using f by simp
    then show ?thesis using f by (auto simp: roundHalfEven_def Let_def)
  qed
qed

lemma bitlen_powi:
  assumes "0 < p"
  shows "(2::rat) powi (bitlen p - 1) \<le> of_int p" "of_int p < (2::rat) powi bitlen p"
proof -
  have b: "2 ^ nat (bitlen p - 1) \<le> p" "p < 2 ^ nat (bitlen p)"
    using bitlen_bounds [OF assms] by simp_all
  have pos: "1 \<le> bitlen p"
    using assms bitlen_nonneg [of p] bitlen_eq_zero_iff [of p] by (cases "bitlen p = 0") auto
  have "(2::rat) powi (bitlen p - 1) = of_int (2 ^ nat (bitlen p - 1))"
    using pos by (simp add: power_int_nonneg_exp)
  also have "\<dots> \<le> of_int p" using b(1) by (simp only: of_int_le_iff)
  finally show "(2::rat) powi (bitlen p - 1) \<le> of_int p" .
  have "of_int p < (of_int (2 ^ nat (bitlen p)) :: rat)" using b(2) by (simp only: of_int_less_iff)
  also have "\<dots> = (2::rat) powi bitlen p"
    using pos by (simp add: power_int_nonneg_exp)
  finally show "of_int p < (2::rat) powi bitlen p" .
qed

lemma floorLog2_bounds:
  assumes "0 < a"
  shows "2 powi floorLog2 a \<le> a \<and> a < 2 powi (floorLog2 a + 1)"
proof -
  obtain p d where pd: "quotient_of a = (p, d)" by force
  have d: "0 < d" using quotient_of_denom_pos [OF pd] .
  have a: "a = of_int p / of_int d" using quotient_of_div [OF pd] .
  have p: "0 < p" using assms a d by (simp add: zero_less_divide_iff)
  note bp = bitlen_powi [OF p] and bd = bitlen_powi [OF d]
  define k where "k = bitlen p - bitlen d"
  have dpos: "(0::rat) < of_int d" using d by simp
  have "a < 2 powi bitlen p / 2 powi (bitlen d - 1)"
    unfolding a using bp(2) bd(1) dpos p
    by (intro frac_less) auto
  also have "\<dots> = 2 powi (k + 1)"
    unfolding k_def by (simp add: power_int_diff [symmetric] algebra_simps)
  finally have up: "a < 2 powi (k + 1)" .
  have "2 powi (bitlen p - 1) / 2 powi bitlen d < a"
    unfolding a using bp(1) bd(2) dpos
    by (intro frac_less2) auto
  moreover have "2 powi (bitlen p - 1) / 2 powi bitlen d = (2::rat) powi (k - 1)"
    unfolding k_def by (simp add: power_int_diff [symmetric] algebra_simps)
  ultimately have lo: "2 powi (k - 1) < a" by simp
  have fl: "floorLog2 a = (if 2 powi k \<le> a then k else k - 1)"
    by (simp add: floorLog2_def pd k_def Let_def)
  show ?thesis using up lo by (auto simp: fl)
qed


lemma binary64_pos:
  assumes "0 < a"
  defines "e \<equiv> max (floorLog2 a - 52) (- 1074)"
  defines "m \<equiv> roundHalfEven (a / 2 powi e)"
  shows "0 \<le> m \<and> m \<le> 2 ^ 53 \<and> (2 ^ 52 \<le> m \<or> e = - 1074) \<and>
         \<bar>of_int m * 2 powi e - a\<bar> \<le> 2 powi (e - 1) \<and>
         (2 powi (e - 1) \<le> a / 2 ^ 53 \<or> e = - 1074)"
proof -
  note fl = floorLog2_bounds [OF assms(1)]
  have pe: "(0::rat) < 2 powi e" by (simp add: zero_less_power_int)
  have "0 \<le> a / 2 powi e" using assms(1) pe by simp
  then have m0: "0 \<le> m" unfolding m_def using roundHalfEven_ge [of 0 "a / 2 powi e"] by simp
  have "a / 2 powi e < 2 powi (floorLog2 a + 1) / 2 powi e"
    using fl pe by (simp add: divide_strict_right_mono)
  also have "\<dots> = 2 powi (floorLog2 a + 1 - e)" by (simp add: power_int_diff)
  also have "\<dots> \<le> 2 powi 53"
    by (rule power_int_increasing) (simp_all add: e_def)
  finally have "a / 2 powi e \<le> of_int (2 ^ 53)" by simp
  then have m1: "m \<le> 2 ^ 53" unfolding m_def by (rule roundHalfEven_le)
  have m2: "2 ^ 52 \<le> m" and r2: "2 powi (e - 1) \<le> a / 2 ^ 53" if ee: "e = floorLog2 a - 52"
  proof -
    have "(2::rat) powi 52 = 2 powi (floorLog2 a - e)" by (simp add: ee)
    also have "\<dots> = 2 powi floorLog2 a / 2 powi e" by (simp add: power_int_diff)
    also have "\<dots> \<le> a / 2 powi e" using fl pe by (simp add: divide_right_mono)
    finally have "of_int (2 ^ 52) \<le> a / 2 powi e" by simp
    then show "2 ^ 52 \<le> m" unfolding m_def by (rule roundHalfEven_ge)
    have "(2::rat) powi (e - 1) = 2 powi (floorLog2 a - 53)" by (simp add: ee)
    also have "\<dots> = 2 powi floorLog2 a / 2 powi 53" by (rule power_int_diff) simp
    also have "\<dots> \<le> a / 2 powi 53" using fl by (simp add: divide_right_mono)
    finally show "2 powi (e - 1) \<le> a / 2 ^ 53" by simp
  qed
  have ecases: "e = floorLog2 a - 52 \<or> e = - 1074" by (auto simp: e_def max_def)
  have "of_int m * 2 powi e - a = (of_int m - a / 2 powi e) * 2 powi e"
    using pe by (simp add: left_diff_distrib)
  then have "\<bar>of_int m * 2 powi e - a\<bar> = \<bar>of_int m - a / 2 powi e\<bar> * \<bar>2 powi e\<bar>"
    by (simp only: abs_mult)
  also have "\<dots> = \<bar>of_int m - a / 2 powi e\<bar> * 2 powi e"
    using pe by simp
  also have "\<dots> \<le> (1 / 2) * 2 powi e"
    using roundHalfEven_near [of "a / 2 powi e"] pe unfolding m_def
    by (intro mult_right_mono) simp_all
  also have "\<dots> = 2 powi (e - 1)" by (simp add: power_int_diff)
  finally have near: "\<bar>of_int m * 2 powi e - a\<bar> \<le> 2 powi (e - 1)" .
  show ?thesis using m0 m1 m2 r2 ecases near by blast
qed

lemma binary64_abs:
  "x \<noteq> 0 \<Longrightarrow>
   binary64 x = (if x < 0 then - 1 else 1) *
     (of_int (roundHalfEven (\<bar>x\<bar> / 2 powi max (floorLog2 \<bar>x\<bar> - 52) (- 1074))) *
      2 powi max (floorLog2 \<bar>x\<bar> - 52) (- 1074))"
  by (simp add: binary64_def Let_def)

lemma binary64_double:
  "\<exists>m e. binary64 x = of_int m * 2 powi e \<and> \<bar>m\<bar> \<le> 2 ^ 53 \<and> - 1074 \<le> e \<and>
         (2 ^ 52 \<le> \<bar>m\<bar> \<or> e = - 1074) \<and> \<bar>binary64 x - x\<bar> \<le> 2 powi (e - 1)"
proof (cases "x = 0")
  case True
  have "binary64 x = of_int 0 * 2 powi (- 1074)" by (simp add: True binary64_def)
  moreover have "\<bar>binary64 x - x\<bar> \<le> 2 powi (- 1074 - 1)"
    by (simp add: True binary64_def del: power_int_numeral_neg_numeral)
  ultimately show ?thesis
    by (intro exI [of _ 0] exI [of _ "- 1074"]) (simp del: power_int_numeral_neg_numeral)
next
  case False
  define e where "e = max (floorLog2 \<bar>x\<bar> - 52) (- 1074)"
  define m where "m = roundHalfEven (\<bar>x\<bar> / 2 powi e)"
  have a: "0 < \<bar>x\<bar>" using False by simp
  note P = binary64_pos [OF a, folded e_def, folded m_def]
  from P have m0: "0 \<le> m" and m1: "m \<le> 2 ^ 53" and m2: "2 ^ 52 \<le> m \<or> e = - 1074"
    and near: "\<bar>of_int m * 2 powi e - \<bar>x\<bar>\<bar> \<le> 2 powi (e - 1)"
    by blast+
  have am: "\<bar>m\<bar> = m" "\<bar>- m\<bar> = m" using m0 by simp_all
  have b: "binary64 x = (if x < 0 then - 1 else 1) * (of_int m * 2 powi e)"
    unfolding m_def e_def by (rule binary64_abs [OF False])
  have e: "- 1074 \<le> e" by (simp add: e_def)
  have "\<bar>binary64 x - x\<bar> = \<bar>of_int m * 2 powi e - \<bar>x\<bar>\<bar>"
    using b by (cases "x < 0") simp_all
  with near have n: "\<bar>binary64 x - x\<bar> \<le> 2 powi (e - 1)" by simp
  show ?thesis
  proof (cases "x < 0")
    case True
    have "binary64 x = of_int (- m) * 2 powi e" using b True by simp
    then show ?thesis using m1 m2 e n
      by (intro exI [of _ "- m"] exI [of _ e] conjI; (simp only: am)?)
  next
    case False
    have "binary64 x = of_int m * 2 powi e" using b False by simp
    then show ?thesis using m1 m2 e n
      by (intro exI [of _ m] exI [of _ e] conjI; (simp only: am)?)
  qed
qed

lemma binary64_relative:
  assumes "1 / 2 ^ 30 \<le> \<bar>x\<bar>"
  shows "\<bar>binary64 x - x\<bar> \<le> \<bar>x\<bar> / 2 ^ 53"
proof -
  define e where "e = max (floorLog2 \<bar>x\<bar> - 52) (- 1074)"
  define m where "m = roundHalfEven (\<bar>x\<bar> / 2 powi e)"
  have a: "0 < \<bar>x\<bar>" using assms by (rule less_le_trans [rotated]) simp
  then have x: "x \<noteq> 0" by simp
  note P = binary64_pos [OF a, folded e_def, folded m_def]
  have b: "binary64 x = (if x < 0 then - 1 else 1) * (of_int m * 2 powi e)"
    unfolding m_def e_def by (rule binary64_abs [OF x])
  have "- 30 \<le> floorLog2 \<bar>x\<bar>"
  proof (rule ccontr)
    assume "\<not> - 30 \<le> floorLog2 \<bar>x\<bar>"
    then have "floorLog2 \<bar>x\<bar> + 1 \<le> - 30" by simp
    then have "(2::rat) powi (floorLog2 \<bar>x\<bar> + 1) \<le> 2 powi (- 30)"
      by (rule power_int_increasing) simp
    also have "\<dots> = 1 / 2 ^ 30" by (simp add: power_int_minus_divide)
    finally show False using floorLog2_bounds [OF a] assms by simp
  qed
  then have "e \<noteq> - 1074" by (simp add: e_def max_def)
  with P have r: "2 powi (e - 1) \<le> \<bar>x\<bar> / 2 ^ 53" by simp
  have "\<bar>binary64 x - x\<bar> = \<bar>of_int m * 2 powi e - \<bar>x\<bar>\<bar>"
    using b by (cases "x < 0") simp_all
  also have "\<dots> \<le> 2 powi (e - 1)" using P by simp
  also note r
  finally show ?thesis .
qed


lemma digitsVal_append:
  "digitsVal (s @ t) =
     foldl (\<lambda>acc c. case acc of None \<Rightarrow> None
                     | Some a \<Rightarrow> (case digitVal c of None \<Rightarrow> None | Some d \<Rightarrow> Some (10 * a + d)))
       (digitsVal s) t"
  by (simp add: digitsVal_def)

lemma digitsVal_snoc:
  "digitsVal (s @ [c]) =
     (case digitsVal s of None \<Rightarrow> None
      | Some a \<Rightarrow> (case digitVal c of None \<Rightarrow> None | Some d \<Rightarrow> Some (10 * a + d)))"
  by (simp add: digitsVal_def)

lemma digitsVal_zeros: "digitsVal (replicate j (CHR ''0'') @ s) = digitsVal s"
proof -
  have "digitsVal (replicate j (CHR ''0'')) = Some 0"
    by (induction j) (simp_all add: digitsVal_def digitVal_def)
  then show ?thesis by (simp add: digitsVal_append) (simp add: digitsVal_def)
qed

lemma digitVal_digit:
  assumes "0 \<le> d" "d < 10"
  shows "digitVal (''0123456789'' ! nat d) = Some d"
proof -
  from assms have "d = 0 \<or> d = 1 \<or> d = 2 \<or> d = 3 \<or> d = 4 \<or> d = 5 \<or> d = 6 \<or> d = 7 \<or> d = 8 \<or> d = 9"
    by arith
  then show ?thesis by (elim disjE) (simp_all add: digitVal_def)
qed

lemma digitsVal_decimal: "0 \<le> n \<Longrightarrow> digitsVal (decimal n) = Some n"
proof (induction n rule: decimal.induct)
  case (1 n)
  show ?case
  proof (cases "n < 10")
    case True
    then have "decimal n = [''0123456789'' ! nat n]" by (subst decimal.simps) simp
    then show ?thesis using digitVal_digit [OF "1.prems" True] by (simp add: digitsVal_def)
  next
    case False
    then have d: "decimal n = decimal (n div 10) @ [''0123456789'' ! nat (n mod 10)]"
      by (subst decimal.simps) simp
    have "digitsVal (decimal (n div 10)) = Some (n div 10)"
      using "1.IH" [OF False] "1.prems" by simp
    moreover have "digitVal (''0123456789'' ! nat (n mod 10)) = Some (n mod 10)"
      by (rule digitVal_digit) simp_all
    ultimately show ?thesis by (simp add: d digitsVal_snoc)
  qed
qed

lemma digitsVal_chars: "digitsVal s = Some v \<Longrightarrow> c \<in> set s \<Longrightarrow> digitVal c \<noteq> None"
proof (induction s arbitrary: v rule: rev_induct)
  case Nil
  then show ?case by simp
next
  case (snoc x xs)
  from snoc.prems(1) obtain a where a: "digitsVal xs = Some a" and x: "digitVal x \<noteq> None"
    by (auto simp: digitsVal_snoc split: option.splits)
  show ?case using snoc.prems(2) snoc.IH [OF a] x by auto
qed

lemma readFixed2_join:
  assumes len: "3 \<le> length m" and val: "digitsVal m = Some c"
  defines "t \<equiv> take (length m - 2) m @ ''.'' @ drop (length m - 2) m"
  shows "readFixed2 t = Some (of_int c / 100)"
    and "readFixed2 (''-'' @ t) = Some (- of_int c / 100)"
proof -
  have lt: "length t = length m + 1" using len by (simp add: t_def)
  have dot: "t ! (length m - 2) = CHR ''.''"
    using len by (simp add: t_def nth_append)
  have tk: "take (length m - 2) t = take (length m - 2) m"
    using len by (simp add: t_def)
  have dr: "drop (length m - 1) t = drop (length m - 2) m"
    using len by (simp add: t_def Suc_diff_Suc)
  have both: "take (length m - 2) t @ drop (length m - 1) t = m"
    by (simp only: tk dr append_take_drop_id)
  then have both': "take (length m - 2) t @ drop (length m - Suc 0) t = m"
    by simp
  have "hd t = hd m" using len by (cases m) (simp_all add: t_def)
  moreover have "hd m \<in> set m" using len by (cases m) simp_all
  ultimately have "digitVal (hd t) \<noteq> None" using digitsVal_chars [OF val] by simp
  then have h: "hd t \<noteq> CHR ''-''" by (auto simp: digitVal_def)
  have ne: "t \<noteq> []" using lt by auto
  show "readFixed2 t = Some (of_int c / 100)"
    using len by (simp add: readFixed2_def Let_def h lt dot both' val)
  show "readFixed2 (''-'' @ t) = Some (- of_int c / 100)"
    using len by (simp add: readFixed2_def Let_def lt dot both' val)
qed

lemma readFixed2_toFixed2:
  "readFixed2 (toFixed2 x) =
     Some ((if x < 0 then - 1 else 1) * of_int \<lfloor>\<bar>x\<bar> * 100 + 1 / 2\<rfloor> / 100)"
proof -
  define n where "n = \<lfloor>\<bar>x\<bar> * 100 + 1 / 2\<rfloor>"
  define m where "m = (if length (decimal n) \<le> 2
                        then replicate (3 - length (decimal n)) (CHR ''0'') @ decimal n
                        else decimal n)"
  have n: "0 \<le> n" by (simp add: n_def)
  have len: "3 \<le> length m" by (simp add: m_def)
  have val: "digitsVal m = Some n"
    using digitsVal_decimal [OF n] by (simp add: m_def digitsVal_zeros)
  have t: "toFixed2 x = (if x < 0 then ''-'' else []) @
             (take (length m - 2) m @ ''.'' @ drop (length m - 2) m)"
    by (simp add: toFixed2_def Let_def n_def [symmetric] m_def [symmetric])
  show ?thesis
    using readFixed2_join [OF len val]
    by (cases "x < 0") (simp_all only: t n_def [symmetric] if_True if_False append_Nil, simp_all)
qed

lemma toFixed2_near:
  "(if x < 0 then - 1 else 1) * of_int \<lfloor>\<bar>x\<bar> * 100 + 1 / 2\<rfloor> / 100 = r \<Longrightarrow> \<bar>r - x\<bar> \<le> 1 / (200::rat)"
proof -
  define n where "n = \<lfloor>\<bar>x\<bar> * 100 + 1 / 2\<rfloor>"
  have "of_int n \<le> \<bar>x\<bar> * 100 + 1 / 2" "\<bar>x\<bar> * 100 + 1 / 2 < of_int n + 1"
    unfolding n_def by linarith+
  then have b: "\<bar>of_int n / 100 - \<bar>x\<bar>\<bar> \<le> 1 / 200" by linarith
  assume "(if x < 0 then - 1 else 1) * of_int \<lfloor>\<bar>x\<bar> * 100 + 1 / 2\<rfloor> / 100 = r"
  then have r: "r = (if x < 0 then - 1 else 1) * (of_int n / 100)" by (simp add: n_def)
  show ?thesis
  proof (cases "x < 0")
    case True
    then have "r - x = - (of_int n / 100 - \<bar>x\<bar>)" using r by simp
    then show ?thesis using b by (simp only: abs_minus_cancel)
  next
    case False
    then have "r - x = of_int n / 100 - \<bar>x\<bar>" using r by simp
    then show ?thesis using b by (simp only:)
  qed
qed

lemma binary64_bound: "\<bar>binary64 x\<bar> \<le> 2 * \<bar>x\<bar> + 1"
proof (cases "x = 0")
  case True
  then show ?thesis by (simp add: binary64_def)
next
  case False
  define e where "e = max (floorLog2 \<bar>x\<bar> - 52) (- 1074)"
  define m where "m = roundHalfEven (\<bar>x\<bar> / 2 powi e)"
  have a: "0 < \<bar>x\<bar>" using False by simp
  note P = binary64_pos [OF a, folded e_def, folded m_def]
  from P have near: "\<bar>of_int m * 2 powi e - \<bar>x\<bar>\<bar> \<le> 2 powi (e - 1)"
    and r: "2 powi (e - 1) \<le> \<bar>x\<bar> / 2 ^ 53 \<or> e = - 1074"
    by blast+
  have b: "binary64 x = (if x < 0 then - 1 else 1) * (of_int m * 2 powi e)"
    unfolding m_def e_def by (rule binary64_abs [OF False])
  have "(2::rat) powi (e - 1) \<le> \<bar>x\<bar> + 1"
    using r
  proof
    assume "2 powi (e - 1) \<le> \<bar>x\<bar> / 2 ^ 53"
    also have "\<bar>x\<bar> / 2 ^ 53 \<le> \<bar>x\<bar> / 1" by (rule divide_left_mono) simp_all
    finally show ?thesis by simp
  next
    assume "e = - 1074"
    then have "e - 1 \<le> 0" by simp
    then have "(2::rat) powi (e - 1) \<le> 2 powi 0" by (rule power_int_increasing) simp
    then have "(2::rat) powi (e - 1) \<le> 1" by simp
    then show ?thesis using a by linarith
  qed
  with near have "\<bar>of_int m * 2 powi e\<bar> \<le> 2 * \<bar>x\<bar> + 1" by linarith
  moreover have "\<bar>binary64 x\<bar> = \<bar>of_int m * 2 powi e\<bar>"
    using b by (cases "x < 0") simp_all
  ultimately show ?thesis by (simp only:)
qed

lemma toBillions_range:
  assumes "\<bar>n\<bar> \<le> 10 ^ 29"
  shows "\<bar>binary64 (n / 1000000000)\<bar> < 10 ^ 21"
proof -
  have "\<bar>n / 1000000000\<bar> = \<bar>n\<bar> / 1000000000" by simp
  also have "\<dots> \<le> 10 ^ 29 / 1000000000" using assms by (rule divide_right_mono) simp
  also have "\<dots> = 10 ^ 20" by simp
  finally have "\<bar>n / 1000000000\<bar> \<le> 10 ^ 20" .
  with binary64_bound [of "n / 1000000000"]
  have "\<bar>binary64 (n / 1000000000)\<bar> \<le> 2 * 10 ^ 20 + 1" by linarith
  also have "\<dots> < (10::rat) ^ 21" by simp
  finally show ?thesis .
qed

section \<open>A failed send\<close>

text \<open>
  C1: when the send of the \<open>k\<close>-th item of the delivery queue fails (the sends before it
  having gone through), the run has made exactly \<open>k\<close> send calls, those of the first
  \<open>k\<close> items of the queue in order, so no later item is attempted; the loaded state is an
  array, and \<^verbatim>\<open>saveState\<close> receives it extended by the records of the first \<open>k - 1\<close>
  items and nothing else. The file written holds that array as JSON.
\<close>

theorem delivery_failure_stops_queue:
  assumes fe: "fetchEarnings tv w = Inr earnings"
    and q: "q = deliveryQueue (buildOk w) earnings (loadState (stateFile w))"
    and k: "1 \<le> k" "k \<le> length q"
    and ok: "\<forall>n < k - 1. sendOk w n"
    and fail: "\<not> sendOk w (k - 1)"
  shows "\<exists>es. loadState (stateFile w) = JArr es
           \<and> sends (main tv w) = map (\<lambda>i. (i, True)) (take (k - 1) q) @ [(q ! (k - 1), False)]
           \<and> caught (main tv w) = Some DeliveryError
           \<and> saveCalls (main tv w) = [JArr (es @ map notificationRecord (take (k - 1) q))]
           \<and> (writeOk w \<longrightarrow>
                 written (main tv w) = Some (reparse (JArr (es @ map notificationRecord (take (k - 1) q)))))"
proof -
  let ?st = "loadState (stateFile w)"
  from k q have lt: "k - 1 < length (deliveryQueue (buildOk w) earnings ?st)" by simp
  have loop: "forLoop (buildOk w) (sendOk w) earnings ?st [] =
      (Some DeliveryError, foldl push ?st (map notificationRecord (take (k - 1) q)),
       map (\<lambda>i. (i, True)) (take (k - 1) q) @ [(q ! (k - 1), False)])"
    using forLoop_fail_at [OF lt ok fail] q by simp
  from forLoop_state [OF loop] obtain es where es: "?st = JArr es" by auto
  have t: "tryBlock tv w ?st =
      (Some DeliveryError, JArr (es @ map notificationRecord (take (k - 1) q)),
       map (\<lambda>i. (i, True)) (take (k - 1) q) @ [(q ! (k - 1), False)])"
    using loop fe es by (simp add: tryBlock_def foldl_push_array)
  show ?thesis
    using es t by (simp add: main_def saveState_def)
qed

text \<open>A queue of four items (A, B, C, E) whose third send fails: A and B are recorded, E is never sent.\<close>

theorem delivery_failure_stops_queue_witness:
  "sends (main isoTimeValue thirdSendFails)
     = [(event ''A'' ''2024-01-01'' JNull (JNum 2345000000), True),
        (event ''B'' ''2024-01-02'' (JNum 1) JNull, True),
        (event ''C'' ''2024-01-03'' (JNum 1) JNull, False)]
   \<and> saveCalls (main isoTimeValue thirdSendFails)
     = [JArr [recordOf ''A'' ''2024-01-01'', recordOf ''B'' ''2024-01-02'']]
   \<and> written (main isoTimeValue thirdSendFails)
     = Some (JArr [recordOf ''A'' ''2024-01-01'', recordOf ''B'' ''2024-01-02''])"
proof -
  let ?A = "event ''A'' ''2024-01-01'' JNull (JNum 2345000000)"
  let ?B = "event ''B'' ''2024-01-02'' (JNum 1) JNull"
  let ?C = "event ''C'' ''2024-01-03'' (JNum 1) JNull"
  let ?D = "event ''D'' ''2024-01-02'' JNull JNull"
  let ?E = "event ''E'' ''2024-01-04'' (JNum 2) JNull"
  have fe: "fetchEarnings isoTimeValue thirdSendFails = Inr [?A, ?B, ?D, ?C, ?E]"
    by code_simp
  have q: "[?A, ?B, ?C, ?E]
      = deliveryQueue (buildOk thirdSendFails) [?A, ?B, ?D, ?C, ?E] (loadState (stateFile thirdSendFails))"
    by code_simp
  have k: "1 \<le> (3::nat)" "3 \<le> length [?A, ?B, ?C, ?E]" by simp_all
  have ok: "\<forall>n < 3 - 1. sendOk thirdSendFails n"
    by (simp add: thirdSendFails_def failsAt_def)
  have fail: "\<not> sendOk thirdSendFails (3 - 1)"
    by (simp add: thirdSendFails_def failsAt_def)
  have st: "loadState (stateFile thirdSendFails) = JArr []"
    by (simp add: thirdSendFails_def loadState_def)
  have w: "writeOk thirdSendFails" by (simp add: thirdSendFails_def)
  have r: "notificationRecord ?A = recordOf ''A'' ''2024-01-01''"
    "notificationRecord ?B = recordOf ''B'' ''2024-01-02''"
    by (simp_all add: notificationRecord_def recordOf_def event_def fieldOf_def)
  have rp: "reparse (JArr [recordOf ''A'' ''2024-01-01'', recordOf ''B'' ''2024-01-02''])
      = JArr [recordOf ''A'' ''2024-01-01'', recordOf ''B'' ''2024-01-02'']"
    by (simp add: recordOf_def)
  from delivery_failure_stops_queue [OF fe q k ok fail] st w r rp
  show ?thesis by (simp add: numeral_3_eq_3)
qed

section \<open>The state store: \<^verbatim>\<open>loadState\<close> and \<^verbatim>\<open>saveState\<close>\<close>

text \<open>
  C8, as stated, fails: a state file holding the JSON text \<^verbatim>\<open>null\<close> is not a State, and
  \<^verbatim>\<open>loadState\<close> returns \<^verbatim>\<open>null\<close> for it, not the empty State.
\<close>

theorem loadState_null_counterexample:
  "loadState (Json JNull) \<noteq> JArr []"
  by (simp add: loadState_def)

text \<open>That run does not proceed as from an empty State: \<^verbatim>\<open>state.length\<close> throws out of \<^verbatim>\<open>main\<close>.\<close>

lemma null_state_run_fails:
  "thrown (main isoTimeValue (thirdSendFails \<lparr> stateFile := Json JNull \<rparr>)) = Some TypeError
   \<and> sends (main isoTimeValue (thirdSendFails \<lparr> stateFile := Json JNull \<rparr>)) = []"
  by code_simp

text \<open>
  C8, amended: \<^verbatim>\<open>loadState\<close> returns the empty State when the state file is absent, when it
  cannot be read and when its content is not JSON text, and the run is then the run from a
  state file holding the empty array. Content that is JSON text is returned as parsed,
  whatever its shape.
\<close>

theorem loadState_empty_or_parsed:
  "loadState NoFile = JArr [] \<and> loadState Unreadable = JArr [] \<and> loadState NotJson = JArr []
   \<and> loadState (Json v) = v
   \<and> main tv (w \<lparr> stateFile := NoFile \<rparr>) = main tv (w \<lparr> stateFile := Json (JArr []) \<rparr>)
   \<and> main tv (w \<lparr> stateFile := Unreadable \<rparr>) = main tv (w \<lparr> stateFile := Json (JArr []) \<rparr>)
   \<and> main tv (w \<lparr> stateFile := NotJson \<rparr>) = main tv (w \<lparr> stateFile := Json (JArr []) \<rparr>)"
proof -
  have "main tv (w \<lparr> stateFile := f \<rparr>) = main tv (w \<lparr> stateFile := Json (JArr []) \<rparr>)"
    if "loadState f = JArr []" for f
  proof -
    have t: "tryBlock tv (w \<lparr> stateFile := g \<rparr>) st = tryBlock tv w st" for g st
      by (simp add: tryBlock_def fetchEarnings_def cong: sum.case_cong)
    obtain e st c where "tryBlock tv w (JArr []) = (e, st, c)"
      by (cases "tryBlock tv w (JArr [])") auto
    with that t show ?thesis
      by (simp add: main_def loadState_def)
  qed
  from this [of NoFile] this [of Unreadable] this [of NotJson]
  show ?thesis by (simp add: loadState_def)
qed




section \<open>The records of a State stay unique\<close>

text \<open>
  C9: when the loaded State is an array in which no two records have the same (symbol, date)
  pair, \<^verbatim>\<open>saveState\<close> receives that array, unchanged, followed by one record for each send
  that resolved in the run, in order, and nothing else; no two records of the result have the
  same pair. When the loaded array is what \<^verbatim>\<open>JSON.parse\<close> returned and the write goes
  through, the file holds the loaded records, the new ones as \<^verbatim>\<open>JSON.stringify\<close> writes
  them, and again no two records with the same pair.
\<close>

theorem state_stays_unique:
  assumes "loadState (stateFile w) = JArr es" and "distinctKeys es"
  shows "\<exists>new. new = map notificationRecord (delivered (sends (main tv w)))
           \<and> saveCalls (main tv w) = [JArr (es @ new)]
           \<and> distinctKeys (es @ new)
           \<and> (writeOk w \<and> jsonValue (JArr es) \<longrightarrow>
                 written (main tv w) = Some (JArr (es @ map reparse new))
                 \<and> distinctKeys (es @ map reparse new))"
proof -
  let ?state = "hd (saveCalls (main tv w))"
  let ?new = "map notificationRecord (delivered (sends (main tv w)))"
  have t: "tryBlock tv w (JArr es) = (caught (main tv w), ?state, sends (main tv w))"
    and s: "saveCalls (main tv w) = [?state]"
    using main_unfold [of tv w] assms(1) by simp_all
  from tryBlock_state [OF t]
  have st: "?state = JArr (es @ ?new)"
    by (simp add: foldl_push_array)
  have d: "distinctKeys (es @ ?new)"
  proof (cases "fetchEarnings tv w")
    case (Inl x)
    with t assms(2) show ?thesis by (simp add: tryBlock_def delivered_def)
  next
    case (Inr earnings)
    with t have "forLoop (buildOk w) (sendOk w) earnings (JArr es) [] = (caught (main tv w), ?state, sends (main tv w))"
      by (simp add: tryBlock_def)
    from forLoop_distinct [OF this assms(2)] show ?thesis .
  qed
  have "written (main tv w) = Some (JArr (es @ map reparse ?new)) \<and> distinctKeys (es @ map reparse ?new)"
    if w: "writeOk w" and j: "jsonValue (JArr es)"
  proof -
    have el: "\<forall>x \<in> set (es @ ?new). jsonValue x \<or> (\<exists>i. x = notificationRecord i)"
      using j by auto
    have "map reparse es = es"
      using j by (simp add: map_idI reparse_json)
    then have m: "map reparse (es @ ?new) = es @ map reparse ?new" by simp
    have w1: "written (main tv w) = Some (reparse ?state)"
      unfolding main_written [of tv w] using w st by simp
    have "reparse ?state = JArr (map reparse (es @ ?new))"
      unfolding st by (rule reparse_array [OF el])
    then have r: "reparse ?state = JArr (es @ map reparse ?new)"
      by (simp only: m)
    from distinctKeys_reparse [OF el d] have "distinctKeys (es @ map reparse ?new)"
      by (simp only: m)
    with w1 r show ?thesis by (simp del: reparse.simps)
  qed
  with s st d show ?thesis by simp
qed

theorem state_stays_unique_witness:
  "distinctKeys [recordOf ''A'' ''2024-01-01'', recordOf ''B'' ''2024-01-02'']
   \<and> saveCalls (main isoTimeValue afterFailure)
       = [JArr [recordOf ''A'' ''2024-01-01'', recordOf ''B'' ''2024-01-02'',
                recordOf ''C'' ''2024-01-03'', recordOf ''E'' ''2024-01-04'']]
   \<and> distinctKeys [recordOf ''A'' ''2024-01-01'', recordOf ''B'' ''2024-01-02'',
                recordOf ''C'' ''2024-01-03'', recordOf ''E'' ''2024-01-04'']
   \<and> written (main isoTimeValue afterFailure)
       = Some (JArr [recordOf ''A'' ''2024-01-01'', recordOf ''B'' ''2024-01-02'',
                recordOf ''C'' ''2024-01-03'', recordOf ''E'' ''2024-01-04''])"
proof -
  let ?es = "[recordOf ''A'' ''2024-01-01'', recordOf ''B'' ''2024-01-02'']"
  have l: "loadState (stateFile afterFailure) = JArr ?es"
    by (simp add: afterFailure_def loadState_def)
  have u: "distinctKeys ?es" by code_simp
  have d: "map notificationRecord (delivered (sends (main isoTimeValue afterFailure)))
      = [recordOf ''C'' ''2024-01-03'', recordOf ''E'' ''2024-01-04'']"
    by code_simp
  have j: "writeOk afterFailure \<and> jsonValue (JArr ?es)"
    by (simp add: afterFailure_def recordOf_def)
  have r: "map reparse [recordOf ''C'' ''2024-01-03'', recordOf ''E'' ''2024-01-04'']
      = [recordOf ''C'' ''2024-01-03'', recordOf ''E'' ''2024-01-04'']"
    by (simp add: recordOf_def)
  from state_stays_unique [OF l u, of isoTimeValue] d j r u
  show ?thesis by simp
qed

section \<open>Idempotence on the State\<close>

text \<open>
  C2: every send of a run is made for an item for which \<^verbatim>\<open>state.some\<close> found no record with
  the same (symbol, date) pair in the state of that moment, which is the loaded state with
  the record of every earlier resolved send pushed. So no two sends of a run are for items
  with the same pair. And when a run ends without error and writes its state, a second run
  that reads that file and gets the same upstream answer sends nothing (the symbols and dates
  being primitive values, and the loaded state a value \<^verbatim>\<open>JSON.parse\<close> returns).
\<close>

theorem idempotent_on_state:
  "(\<forall>j < length (sends (main tv w)).
      exists_in (foldl push (loadState (stateFile w))
                   (map notificationRecord (delivered (take j (sends (main tv w))))))
        (fst (sends (main tv w) ! j)) = Inr False)
   \<and> distinctKeys (map fst (sends (main tv w)))
   \<and> (\<forall>earnings v w'.
         fetchEarnings tv w = Inr earnings \<and> (\<forall>item \<in> set earnings. plainKey item)
         \<and> jsonValue (loadState (stateFile w))
         \<and> caught (main tv w) = None \<and> written (main tv w) = Some v
         \<and> stateFile w' = Json v \<and> upstream w' = upstream w
         \<longrightarrow> sends (main tv w') = [])"
  using main_checked [of tv w] main_sends_distinct [of tv w] second_run_silent [of tv w]
  by blast

theorem idempotent_on_state_witness:
  "sends (main isoTimeValue allDelivered)
     = [(event ''A'' ''2024-01-01'' JNull (JNum 2345000000), True),
        (event ''B'' ''2024-01-02'' (JNum 1) JNull, True),
        (event ''C'' ''2024-01-03'' (JNum 1) JNull, True),
        (event ''E'' ''2024-01-04'' (JNum 2) JNull, True)]
   \<and> written (main isoTimeValue allDelivered)
     = Some (JArr [recordOf ''A'' ''2024-01-01'', recordOf ''B'' ''2024-01-02'',
                   recordOf ''C'' ''2024-01-03'', recordOf ''E'' ''2024-01-04''])
   \<and> sends (main isoTimeValue
        (allDelivered \<lparr> stateFile := Json (JArr [recordOf ''A'' ''2024-01-01'', recordOf ''B'' ''2024-01-02'',
                   recordOf ''C'' ''2024-01-03'', recordOf ''E'' ''2024-01-04'']) \<rparr>)) = []"
proof -
  let ?A = "event ''A'' ''2024-01-01'' JNull (JNum 2345000000)"
  let ?A' = "event ''A'' ''2024-01-01'' (JNum 3) JNull"
  let ?B = "event ''B'' ''2024-01-02'' (JNum 1) JNull"
  let ?C = "event ''C'' ''2024-01-03'' (JNum 1) JNull"
  let ?D = "event ''D'' ''2024-01-02'' JNull JNull"
  let ?E = "event ''E'' ''2024-01-04'' (JNum 2) JNull"
  let ?v = "JArr [recordOf ''A'' ''2024-01-01'', recordOf ''B'' ''2024-01-02'',
                   recordOf ''C'' ''2024-01-03'', recordOf ''E'' ''2024-01-04'']"
  let ?w' = "allDelivered \<lparr> stateFile := Json ?v \<rparr>"
  have s: "sends (main isoTimeValue allDelivered) = [(?A, True), (?B, True), (?C, True), (?E, True)]"
    by code_simp
  have wr: "written (main isoTimeValue allDelivered) = Some ?v"
    by code_simp
  have fe: "fetchEarnings isoTimeValue allDelivered = Inr [?A, ?A', ?B, ?D, ?C, ?E]"
    by code_simp
  have pk: "\<forall>item \<in> set [?A, ?A', ?B, ?D, ?C, ?E]. plainKey item"
    by (simp add: plainKey_def event_def fieldOf_def)
  have js: "jsonValue (loadState (stateFile allDelivered))"
    by (simp add: allDelivered_def loadState_def)
  have ok: "caught (main isoTimeValue allDelivered) = None"
    by code_simp
  have f': "stateFile ?w' = Json ?v" and u': "upstream ?w' = upstream allDelivered"
    by simp_all
  from idempotent_on_state [of isoTimeValue allDelivered]
  have "\<forall>earnings v w'.
         fetchEarnings isoTimeValue allDelivered = Inr earnings \<and> (\<forall>item \<in> set earnings. plainKey item)
         \<and> jsonValue (loadState (stateFile allDelivered))
         \<and> caught (main isoTimeValue allDelivered) = None \<and> written (main isoTimeValue allDelivered) = Some v
         \<and> stateFile w' = Json v \<and> upstream w' = upstream allDelivered
         \<longrightarrow> sends (main isoTimeValue w') = []"
    by (elim conjE)
  with fe pk js ok wr f' u' have "sends (main isoTimeValue ?w') = []" by blast
  with s wr show ?thesis by (simp only: simp_thms)
qed

section \<open>Reported events\<close>

text \<open>
  C3: the test of lines 56-58 accepts an upstream event exactly when at least one of its
  reported EPS and reported revenue is not \<^verbatim>\<open>null\<close> (the estimates play no part). Every
  item of the delivery queue, and every item a run sends, passed that test; an event with
  both \<^verbatim>\<open>null\<close> is never sent. The sends of a run are the first items of its queue. And an
  event that passes the test is sent in a run that ends without error, unless a record with
  its (symbol, date) pair is found in the state (lines 60-63).
\<close>

theorem reportable_iff_actual:
  "(readable item \<longrightarrow> isReported item = Inr (hasActual item))
   \<and> (\<forall>x \<in> set (deliveryQueue build earnings st). x \<in> set earnings \<and> hasActual x)
   \<and> (\<forall>x \<in> set (sends (main tv w)). hasActual (fst x))
   \<and> (\<forall>es. fetchEarnings tv w = Inr es \<longrightarrow>
         prefix (map fst (sends (main tv w))) (deliveryQueue (buildOk w) es (loadState (stateFile w))))
   \<and> (\<forall>es x. caught (main tv w) = None \<and> fetchEarnings tv w = Inr es \<and> x \<in> set es \<and> hasActual x \<longrightarrow>
         (x, True) \<in> set (sends (main tv w)) \<or> exists_in (hd (saveCalls (main tv w))) x = Inr True)"
proof (intro conjI)
  show "readable item \<longrightarrow> isReported item = Inr (hasActual item)"
    by (simp add: isReported_hasActual)
  show "\<forall>x \<in> set (deliveryQueue build earnings st). x \<in> set earnings \<and> hasActual x"
    by (rule queue_reported)
  show "\<forall>x \<in> set (sends (main tv w)). hasActual (fst x)"
    using main_sends_reported [of tv w] by simp
  show "\<forall>es. fetchEarnings tv w = Inr es \<longrightarrow>
         prefix (map fst (sends (main tv w))) (deliveryQueue (buildOk w) es (loadState (stateFile w)))"
    using sends_prefix_queue [OF main_loop] by simp
  show "\<forall>es x. caught (main tv w) = None \<and> fetchEarnings tv w = Inr es \<and> x \<in> set es \<and> hasActual x \<longrightarrow>
         (x, True) \<in> set (sends (main tv w)) \<or> exists_in (hd (saveCalls (main tv w))) x = Inr True"
    using main_complete(2) [of tv w] by blast
qed

theorem reportable_iff_actual_witness:
  "\<not> hasActual (event ''D'' ''2024-01-02'' JNull JNull)
   \<and> event ''D'' ''2024-01-02'' JNull JNull \<notin> fst ` set (sends (main isoTimeValue allDelivered))
   \<and> hasActual (event ''B'' ''2024-01-02'' (JNum 1) JNull)
   \<and> isReported (event ''B'' ''2024-01-02'' (JNum 1) JNull) = Inr True
   \<and> ((event ''B'' ''2024-01-02'' (JNum 1) JNull, True) \<in> set (sends (main isoTimeValue allDelivered))
       \<or> exists_in (hd (saveCalls (main isoTimeValue allDelivered)))
            (event ''B'' ''2024-01-02'' (JNum 1) JNull) = Inr True)"
proof -
  let ?A = "event ''A'' ''2024-01-01'' JNull (JNum 2345000000)"
  let ?A' = "event ''A'' ''2024-01-01'' (JNum 3) JNull"
  let ?B = "event ''B'' ''2024-01-02'' (JNum 1) JNull"
  let ?C = "event ''C'' ''2024-01-03'' (JNum 1) JNull"
  let ?D = "event ''D'' ''2024-01-02'' JNull JNull"
  let ?E = "event ''E'' ''2024-01-04'' (JNum 2) JNull"
  note t = reportable_iff_actual [of ?B acceptsAll "[]" JNull isoTimeValue allDelivered]
  have d: "\<not> hasActual ?D" by (simp add: hasActual_def event_def fieldOf_def)
  have b: "hasActual ?B" by (simp add: hasActual_def event_def fieldOf_def)
  have rb: "readable ?B" by (simp add: readable_def event_def)
  have fe: "fetchEarnings isoTimeValue allDelivered = Inr [?A, ?A', ?B, ?D, ?C, ?E]"
    by code_simp
  have ok: "caught (main isoTimeValue allDelivered) = None"
    by code_simp
  from t rb b have 1: "isReported ?B = Inr True" by simp
  from t d have 2: "?D \<notin> fst ` set (sends (main isoTimeValue allDelivered))" by auto
  from t have "caught (main isoTimeValue allDelivered) = None
       \<and> fetchEarnings isoTimeValue allDelivered = Inr [?A, ?A', ?B, ?D, ?C, ?E]
       \<and> ?B \<in> set [?A, ?A', ?B, ?D, ?C, ?E] \<and> hasActual ?B \<longrightarrow>
         (?B, True) \<in> set (sends (main isoTimeValue allDelivered))
         \<or> exists_in (hd (saveCalls (main isoTimeValue allDelivered))) ?B = Inr True"
    by blast
  with ok fe b have 3: "(?B, True) \<in> set (sends (main isoTimeValue allDelivered))
         \<or> exists_in (hd (saveCalls (main isoTimeValue allDelivered))) ?B = Inr True"
    by simp
  from d 2 b 1 3 show ?thesis by (simp only: simp_thms)
qed

section \<open>Absent fields\<close>



section \<open>Entries that lack fields\<close>




section \<open>Delivery order\<close>



section \<open>\<^verbatim>\<open>toBillions\<close>: formatting\<close>

text \<open>
  C7: monetary values are formatted in billions with two decimals, and \<^verbatim>\<open>null\<close> (like
  \<^verbatim>\<open>undefined\<close>) gives the marker \<^verbatim>\<open>N/A\<close>. \<^verbatim>\<open>toBillions(2345000000)\<close> is
  \<^verbatim>\<open>$2.35B\<close>, and \<^verbatim>\<open>toBillions(1005000000)\<close> is \<^verbatim>\<open>$1.00B\<close>: the double nearest to
  1.005 lies below it. A tie goes up (\<^verbatim>\<open>$0.13B\<close> for 125000000), and the sign follows the
  dollar (\<^verbatim>\<open>$-0.05B\<close> for -50000000). For every number \<open>n\<close> whose quotient by \<open>10 ^ 9\<close>, as a double, is of
  magnitude below \<open>10 ^ 21\<close> (every \<open>n\<close> of magnitude up to \<open>10 ^ 29\<close> is one), the result
  is \<^verbatim>\<open>$\<close>, a decimal numeral with exactly two digits after the point, and \<^verbatim>\<open>B\<close>, and
  the numeral is within \<open>1 / 200\<close> of that double. The double is a 53-bit significand times
  a power of two, within half a unit in the last place of the exact quotient; for \<open>n\<close> of
  magnitude at least 1 that is a relative error of at most \<open>2 ^ - 53\<close>.
\<close>

theorem toBillions_format:
  "toBillions JNull = Some ''N/A'' \<and>
   toBillions JUndefined = Some ''N/A'' \<and>
   toBillions (JNum 2345000000) = Some ''$2.35B'' \<and>
   toBillions (JNum 1005000000) = Some ''$1.00B'' \<and>
   toBillions (JNum 125000000) = Some ''$0.13B'' \<and>
   toBillions (JNum (- 50000000)) = Some ''$-0.05B'' \<and>
   (\<forall>n. \<bar>binary64 (n / 1000000000)\<bar> < 10 ^ 21 \<longrightarrow>
      (\<exists>s r. toBillions (JNum n) = Some (''$'' @ s @ ''B'') \<and> readFixed2 s = Some r \<and>
             \<bar>r - binary64 (n / 1000000000)\<bar> \<le> 1 / 200)) \<and>
   (\<forall>n. \<bar>n\<bar> \<le> 10 ^ 29 \<longrightarrow> \<bar>binary64 (n / 1000000000)\<bar> < 10 ^ 21) \<and>
   (\<forall>x. \<exists>m e. binary64 x = of_int m * 2 powi e \<and> \<bar>m\<bar> \<le> 2 ^ 53 \<and> - 1074 \<le> e \<and>
      (2 ^ 52 \<le> \<bar>m\<bar> \<or> e = - 1074) \<and> \<bar>binary64 x - x\<bar> \<le> 2 powi (e - 1)) \<and>
   (\<forall>n. 1 \<le> \<bar>n\<bar> \<longrightarrow>
      \<bar>binary64 (n / 1000000000) - n / 1000000000\<bar> \<le> \<bar>n / 1000000000\<bar> / 2 ^ 53)"
proof -
  have e0: "toBillions JNull = Some ''N/A''" "toBillions JUndefined = Some ''N/A''"
    by simp_all
  have e1: "toBillions (JNum 2345000000) = Some ''$2.35B''" by code_simp
  have e2: "toBillions (JNum 1005000000) = Some ''$1.00B''" by code_simp
  have e3: "toBillions (JNum 125000000) = Some ''$0.13B''" by code_simp
  have e4: "toBillions (JNum (- 50000000)) = Some ''$-0.05B''" by code_simp
  have g: "\<forall>n. \<bar>binary64 (n / 1000000000)\<bar> < 10 ^ 21 \<longrightarrow>
      (\<exists>s r. toBillions (JNum n) = Some (''$'' @ s @ ''B'') \<and> readFixed2 s = Some r \<and>
             \<bar>r - binary64 (n / 1000000000)\<bar> \<le> 1 / 200)"
  proof (intro allI impI)
    fix n :: rat
    let ?q = "binary64 (n / 1000000000)"
    let ?r = "(if ?q < 0 then - 1 else 1) * of_int \<lfloor>\<bar>?q\<bar> * 100 + 1 / 2\<rfloor> / 100"
    assume "\<bar>?q\<bar> < 10 ^ 21"
    then have "toBillions (JNum n) = Some (''$'' @ toFixed2 ?q @ ''B'')"
      by (simp add: Let_def)
    moreover have "readFixed2 (toFixed2 ?q) = Some ?r" by (rule readFixed2_toFixed2)
    moreover have "\<bar>?r - ?q\<bar> \<le> 1 / 200" by (rule toFixed2_near [OF refl])
    ultimately show "\<exists>s r. toBillions (JNum n) = Some (''$'' @ s @ ''B'') \<and>
        readFixed2 s = Some r \<and> \<bar>r - ?q\<bar> \<le> 1 / 200"
      by blast
  qed
  have d: "\<forall>x. \<exists>m e. binary64 x = of_int m * 2 powi e \<and> \<bar>m\<bar> \<le> 2 ^ 53 \<and> - 1074 \<le> e \<and>
      (2 ^ 52 \<le> \<bar>m\<bar> \<or> e = - 1074) \<and> \<bar>binary64 x - x\<bar> \<le> 2 powi (e - 1)"
    by (intro allI) (rule binary64_double)
  have rel: "\<forall>n. 1 \<le> \<bar>n\<bar> \<longrightarrow>
      \<bar>binary64 (n / 1000000000) - n / 1000000000\<bar> \<le> \<bar>n / 1000000000\<bar> / 2 ^ 53"
  proof (intro allI impI)
    fix n :: rat
    assume n: "1 \<le> \<bar>n\<bar>"
    have "(1::rat) / 2 ^ 30 \<le> 1 / 1000000000" by simp
    also have "\<dots> \<le> \<bar>n\<bar> / 1000000000" using n by (simp add: divide_right_mono)
    also have "\<dots> = \<bar>n / 1000000000\<bar>" by simp
    finally show "\<bar>binary64 (n / 1000000000) - n / 1000000000\<bar> \<le> \<bar>n / 1000000000\<bar> / 2 ^ 53"
      by (rule binary64_relative)
  qed
  have rg: "\<forall>n. \<bar>n\<bar> \<le> 10 ^ 29 \<longrightarrow> \<bar>binary64 (n / 1000000000)\<bar> < 10 ^ 21"
    by (intro allI impI) (rule toBillions_range)
  from e0 e1 e2 e3 e4 g rg d rel show ?thesis by (intro conjI)
qed

theorem toBillions_format_witness:
  "\<bar>2345000000 :: rat\<bar> \<le> 10 ^ 29 \<and> 1 \<le> \<bar>2345000000 :: rat\<bar> \<and>
   \<bar>binary64 (2345000000 / 1000000000)\<bar> < 10 ^ 21 \<and>
   (\<exists>s r. toBillions (JNum 2345000000) = Some (''$'' @ s @ ''B'') \<and> readFixed2 s = Some r \<and>
          \<bar>r - binary64 (2345000000 / 1000000000)\<bar> \<le> 1 / 200) \<and>
   \<bar>binary64 (2345000000 / 1000000000) - 2345000000 / 1000000000\<bar>
     \<le> \<bar>2345000000 / 1000000000\<bar> / 2 ^ 53"
proof -
  have j: "\<bar>2345000000 :: rat\<bar> \<le> 10 ^ 29" by simp
  have k: "1 \<le> \<bar>2345000000 :: rat\<bar>" by simp
  note T = toBillions_format [THEN conjunct2, THEN conjunct2, THEN conjunct2, THEN conjunct2,
      THEN conjunct2, THEN conjunct2]
  note h = T [THEN conjunct2, THEN conjunct1, rule_format, OF j]
  note a = T [THEN conjunct1, rule_format, OF h]
  note b = T [THEN conjunct2, THEN conjunct2, THEN conjunct2, rule_format, OF k]
  from j k h a b show ?thesis by (intro conjI)
qed

end
